theory Spec2Isabelle
  imports Complex_Main
begin

section \<open>Python values, entries and errors\<close>

text \<open>
  The exceptions the hash table code can raise. \<open>TypeError\<close> stands for every failure of
  an operation applied to a slot array whose shape does not fit the collision strategy
  (a chained table holding single cells or the reverse); \<open>__init__\<close> never builds such
  a table and no method turns a table into one.
\<close>

datatype error = ZeroDivisionError | IndexError | AttributeError | TypeError

text \<open>
  The values a map entry can carry, and what \<open>find\<close> returns: \<open>None\<close>, a boolean,
  an integer or a string. \<open>truthy\<close> is Python's truth value of such an object, as
  tested by \<open>if self.find(key)\<close>.
\<close>

datatype pyval = PNone | PBool bool | PInt int | PStr string

fun truthy :: "pyval \<Rightarrow> bool" where
  "truthy PNone = False"
| "truthy (PBool b) = b"
| "truthy (PInt i) = (i \<noteq> 0)"
| "truthy (PStr s) = (s \<noteq> [])"

text \<open>
  An element handed to \<open>insert\<close> is a bare key (a \<open>str\<close>) or a tuple of a key and a
  value. Keys are strings of code points below 256.
\<close>

datatype entry = Key string | KeyVal string pyval

text \<open>\<open>key = x[0] if isinstance(x, tuple) else x\<close>\<close>

fun entry_key :: "entry \<Rightarrow> string" where
  "entry_key (Key k) = k"
| "entry_key (KeyVal k v) = k"

text \<open>\<open>(isinstance(item, tuple) and item[0] == key) or item == key\<close>\<close>

fun matches :: "entry \<Rightarrow> string \<Rightarrow> bool" where
  "matches (Key k) key = (k = key)"
| "matches (KeyVal k v) key = (k = key)"

text \<open>\<open>item[1] if isinstance(item, tuple) else True\<close>\<close>

fun item_result :: "entry \<Rightarrow> pyval" where
  "item_result (Key k) = PBool True"
| "item_result (KeyVal k v) = v"

text \<open>
  The truth value of a stored item in \<open>while self.table[idx]:\<close>. A tuple of two
  components is true, a string is true when it is not empty.
\<close>

fun item_truthy :: "entry \<Rightarrow> bool" where
  "item_truthy (Key k) = (k \<noteq> [])"
| "item_truthy (KeyVal k v) = True"

text \<open>
  Python list indexing \<open>xs[i]\<close>: a negative index counts from the end, an index out
  of range raises \<open>IndexError\<close>. \<open>py_index\<close> gives the position that is accessed.
\<close>

definition py_index :: "'a list \<Rightarrow> int \<Rightarrow> error + nat" where
  "py_index xs i =
     (let n = int (length xs) in
      if 0 \<le> i \<and> i < n then Inr (nat i)
      else if - n \<le> i \<and> i < 0 then Inr (nat (i + n))
      else Inl IndexError)"

definition py_get :: "'a list \<Rightarrow> int \<Rightarrow> error + 'a" where
  "py_get xs i = (case py_index xs i of Inl e \<Rightarrow> Inl e | Inr j \<Rightarrow> Inr (xs ! j))"

section \<open>The table (hash\_table.py)\<close>

datatype collision = Chain | Linear | Double

text \<open>
  \<open>self.table\<close> is a list of lists of entries for the chaining strategy and a list of
  optional entries (\<open>None\<close> for a vacant slot) for the probing strategies.
\<close>

datatype storage = Chained "entry list list" | Probed "entry option list"

text \<open>
  The attributes of a \<open>HashTable\<close> object. \<open>is_hashmap\<close> is the class of the
  object, \<open>isinstance(self, HashMap)\<close>. \<open>z2\<close> and \<open>c2\<close> are attributes of
  a table of the \<open>Double\<close> strategy only; the other strategies never read them.
\<close>

record hash_table =
  is_hashmap :: bool
  collision_type :: collision
  z :: int
  z2 :: int
  c2 :: int
  table_size :: int
  total_elements :: int
  table :: storage

text \<open>
  \<open>HashTable.__init__\<close>: \<open>params\<close> is indexed at 0..3 for \<open>Double\<close> and at 0..1
  otherwise, which raises \<open>IndexError\<close> on a shorter sequence. A size that is not
  positive gives an empty slot array, as \<open>range\<close> and list repetition do.
\<close>

definition init_table :: "bool \<Rightarrow> collision \<Rightarrow> int list \<Rightarrow> error + hash_table" where
  "init_table hm ct params =
     (if ct = Double then
        (if length params < 4 then Inl IndexError
         else Inr \<lparr>is_hashmap = hm, collision_type = ct, z = params ! 0, z2 = params ! 1,
                   c2 = params ! 2, table_size = params ! 3, total_elements = 0,
                   table = Probed (replicate (nat (params ! 3)) None)\<rparr>)
      else
        (if length params < 2 then Inl IndexError
         else Inr \<lparr>is_hashmap = hm, collision_type = ct, z = params ! 0, z2 = 0,
                   c2 = 0, table_size = params ! 1, total_elements = 0,
                   table = (if ct = Chain then Chained (replicate (nat (params ! 1)) [])
                            else Probed (replicate (nat (params ! 1)) None))\<rparr>))"

subsection \<open>Hashing\<close>

text \<open>
  \<open>char.islower()\<close> for one character: the letters a to z and, above the ASCII
  range, the lower-case letters of Latin-1.
\<close>

definition py_islower :: "char \<Rightarrow> bool" where
  "py_islower c =
     (let n = (of_char c :: nat) in
      (97 \<le> n \<and> n \<le> 122) \<or> n = 170 \<or> n = 181 \<or> n = 186 \<or>
      (223 \<le> n \<and> n \<le> 246) \<or> (248 \<le> n \<and> n \<le> 255))"

text \<open>
  \<open>if char.islower(): value = ord(char) - ord('a')\<close>,
  \<open>else: value = ord(char) - ord('A') + 26\<close>
\<close>

definition char_value :: "char \<Rightarrow> int" where
  "char_value c =
     (if py_islower c then int (of_char c) - 97 else int (of_char c) - 65 + 26)"

text \<open>
  \<open>get_slot\<close>: the loop runs over the key from its last character to its first. Every
  path through the function reduces modulo \<open>table_size\<close> (at the latest in the
  \<open>return\<close>), so a size of zero raises \<open>ZeroDivisionError\<close> for every key.
\<close>

definition get_slot :: "hash_table \<Rightarrow> string \<Rightarrow> error + int" where
  "get_slot t key =
     (if table_size t = 0 then Inl ZeroDivisionError
      else Inr (foldl (\<lambda>poly c. (poly * z t + char_value c) mod table_size t) 0 (rev key)
                  mod table_size t))"

text \<open>
  The secondary hash of the \<open>Double\<close> strategy, the same lines in \<open>insert\<close> and in
  \<open>find\<close>: the accumulation is not reduced, and \<open>step % self.c2\<close> raises when
  \<open>c2\<close> is zero.
\<close>

definition secondary_step :: "hash_table \<Rightarrow> string \<Rightarrow> error + int" where
  "secondary_step t key =
     (let step = foldl (\<lambda>step c. step * z2 t + char_value c) 0 (rev key) in
      if c2 t = 0 then Inl ZeroDivisionError else Inr (c2 t - step mod c2 t))"

subsection \<open>find\<close>

text \<open>
  The methods \<open>find\<close> and \<open>insert\<close> are \<open>find_ht\<close> and \<open>insert_ht\<close> here.
\<close>

text \<open>The value returned on a miss: \<open>None if isinstance(self, HashMap) else False\<close>.\<close>

definition miss :: "hash_table \<Rightarrow> pyval" where
  "miss t = (if is_hashmap t then PNone else PBool False)"

text \<open>The \<open>for item in self.table[idx]\<close> loop of the chaining strategy.\<close>

fun find_chain :: "entry list \<Rightarrow> string \<Rightarrow> pyval \<Rightarrow> pyval" where
  "find_chain [] key nf = nf"
| "find_chain (item # rest) key nf =
     (if matches item key then item_result item else find_chain rest key nf)"

text \<open>
  The \<open>while self.table[idx]:\<close> loop of the probing strategies, with the step 1 for
  \<open>Linear\<close>. The first argument bounds the number of slots the loop may examine: each
  evaluation of the loop condition uses one unit, and the result is \<open>None\<close> when the
  bound is used up before the loop has ended.
\<close>

fun find_probe ::
  "nat \<Rightarrow> entry option list \<Rightarrow> int \<Rightarrow> int \<Rightarrow> string \<Rightarrow> pyval \<Rightarrow> int \<Rightarrow> int
     \<Rightarrow> (error + pyval) option" where
  "find_probe 0 cells sz step key nf orig_idx idx = None"
| "find_probe (Suc n) cells sz step key nf orig_idx idx =
     (case py_get cells idx of
        Inl e \<Rightarrow> Some (Inl e)
      | Inr None \<Rightarrow> Some (Inr nf)
      | Inr (Some item) \<Rightarrow>
          if \<not> item_truthy item then Some (Inr nf)
          else if matches item key then Some (Inr (item_result item))
          else (let idx' = (idx + step) mod sz in
                if orig_idx = idx' then Some (Inr nf)
                else find_probe n cells sz step key nf orig_idx idx'))"

definition find_ht :: "nat \<Rightarrow> hash_table \<Rightarrow> string \<Rightarrow> (error + pyval) option" where
  "find_ht n t key =
     (case get_slot t key of
        Inl e \<Rightarrow> Some (Inl e)
      | Inr idx \<Rightarrow>
         (case collision_type t of
            Chain \<Rightarrow>
              (case table t of
                 Chained buckets \<Rightarrow>
                   (case py_get buckets idx of
                      Inl e \<Rightarrow> Some (Inl e)
                    | Inr bucket \<Rightarrow> Some (Inr (find_chain bucket key (miss t))))
               | Probed cells \<Rightarrow> Some (Inl TypeError))
          | Linear \<Rightarrow>
              (case table t of
                 Chained buckets \<Rightarrow> Some (Inl TypeError)
               | Probed cells \<Rightarrow> find_probe n cells (table_size t) 1 key (miss t) idx idx)
          | Double \<Rightarrow>
              (case secondary_step t key of
                 Inl e \<Rightarrow> Some (Inl e)
               | Inr step \<Rightarrow>
                  (case table t of
                     Chained buckets \<Rightarrow> Some (Inl TypeError)
                   | Probed cells \<Rightarrow>
                       find_probe n cells (table_size t) step key (miss t) idx idx))))"

subsection \<open>insert\<close>

text \<open>
  The \<open>while self.table[idx] is not None:\<close> loop. The result is the index of the vacant
  slot the loop stopped at, or \<open>None\<close> when the probe came back to \<open>orig_idx\<close> and
  \<open>insert\<close> returns without storing. The bound counts examined slots as in
  \<open>find_probe\<close>.
\<close>

fun insert_probe ::
  "nat \<Rightarrow> entry option list \<Rightarrow> int \<Rightarrow> int \<Rightarrow> int \<Rightarrow> int \<Rightarrow> (error + int option) option" where
  "insert_probe 0 cells sz step orig_idx idx = None"
| "insert_probe (Suc n) cells sz step orig_idx idx =
     (case py_get cells idx of
        Inl e \<Rightarrow> Some (Inl e)
      | Inr None \<Rightarrow> Some (Inr (Some idx))
      | Inr (Some item) \<Rightarrow>
          (let idx' = (idx + step) mod sz in
           if idx' = orig_idx then Some (Inr None)
           else insert_probe n cells sz step orig_idx idx'))"

text \<open>\<open>self.table[idx] = x\<close> followed by \<open>self.total_elements += 1\<close>.\<close>

definition store_cell :: "hash_table \<Rightarrow> entry option list \<Rightarrow> int \<Rightarrow> entry \<Rightarrow> error + hash_table" where
  "store_cell t cells idx x =
     (case py_index cells idx of
        Inl e \<Rightarrow> Inl e
      | Inr j \<Rightarrow> Inr (t\<lparr>table := Probed (cells[j := Some x]),
                        total_elements := total_elements t + 1\<rparr>))"

text \<open>\<open>self.table[idx].append(x)\<close> followed by \<open>self.total_elements += 1\<close>.\<close>

definition append_bucket :: "hash_table \<Rightarrow> entry list list \<Rightarrow> int \<Rightarrow> entry \<Rightarrow> error + hash_table" where
  "append_bucket t buckets idx x =
     (case py_index buckets idx of
        Inl e \<Rightarrow> Inl e
      | Inr j \<Rightarrow> Inr (t\<lparr>table := Chained (buckets[j := buckets ! j @ [x]]),
                        total_elements := total_elements t + 1\<rparr>))"

text \<open>The probing branch of \<open>insert\<close> once the step is known.\<close>

definition insert_probing :: "nat \<Rightarrow> hash_table \<Rightarrow> int \<Rightarrow> int \<Rightarrow> entry \<Rightarrow> (error + hash_table) option" where
  "insert_probing n t step idx x =
     (case table t of
        Chained buckets \<Rightarrow> Some (Inl TypeError)
      | Probed cells \<Rightarrow>
         (case insert_probe n cells (table_size t) step idx idx of
            None \<Rightarrow> None
          | Some (Inl e) \<Rightarrow> Some (Inl e)
          | Some (Inr None) \<Rightarrow> Some (Inr t)
          | Some (Inr (Some j)) \<Rightarrow> Some (store_cell t cells j x)))"

definition insert_ht :: "nat \<Rightarrow> hash_table \<Rightarrow> entry \<Rightarrow> (error + hash_table) option" where
  "insert_ht n t x =
     (let key = entry_key x in
      case find_ht n t key of
        None \<Rightarrow> None
      | Some (Inl e) \<Rightarrow> Some (Inl e)
      | Some (Inr found) \<Rightarrow>
          if truthy found then Some (Inr t)
          else
           (case get_slot t key of
              Inl e \<Rightarrow> Some (Inl e)
            | Inr idx \<Rightarrow>
               (case collision_type t of
                  Chain \<Rightarrow>
                    (case table t of
                       Chained buckets \<Rightarrow> Some (append_bucket t buckets idx x)
                     | Probed cells \<Rightarrow> Some (Inl TypeError))
                | Linear \<Rightarrow> insert_probing n t 1 idx x
                | Double \<Rightarrow>
                    (case secondary_step t key of
                       Inl e \<Rightarrow> Some (Inl e)
                     | Inr step \<Rightarrow> insert_probing n t step idx x))))"

subsection \<open>get\_load\<close>

text \<open>
  \<open>self.total_elements / self.table_size\<close>, as the exact ratio of the two integers
  (the rounding of Python's float division is not modelled).
\<close>

definition get_load :: "hash_table \<Rightarrow> error + rat" where
  "get_load t =
     (if table_size t = 0 then Inl ZeroDivisionError
      else Inr (of_int (total_elements t) / of_int (table_size t)))"

section \<open>The growing table (dynamic\_hashtable.py, prime\_generator.py)\<close>

text \<open>
  A dynamic table together with the global list \<open>prime_sizes\<close> of the module
  \<open>prime_generator\<close>, which \<open>rehash\<close> consumes.
\<close>

record dyn_table =
  tbl :: hash_table
  prime_sizes :: "int list"

text \<open>
  \<open>get_next_size\<close>: \<open>prime_sizes.pop()\<close> removes and returns the last element of
  the list and raises \<open>IndexError\<close> on an empty list.
\<close>

definition get_next_size :: "int list \<Rightarrow> error + int \<times> int list" where
  "get_next_size ps = (if ps = [] then Inl IndexError else Inr (last ps, butlast ps))"

text \<open>
  The loop of \<open>rehash\<close> that collects \<open>current_elements\<close>: the slots in order,
  every bucket in its own order, vacant slots skipped.
\<close>

definition current_elements :: "hash_table \<Rightarrow> error + entry list" where
  "current_elements t =
     (case table t of
        Chained buckets \<Rightarrow>
          (if collision_type t = Chain then Inr (concat buckets) else Inl TypeError)
      | Probed cells \<Rightarrow>
          (if collision_type t = Chain then Inl TypeError
           else Inr (concat (map (\<lambda>slot. case slot of None \<Rightarrow> [] | Some item \<Rightarrow> [item])
                               cells))))"

text \<open>
  The loop \<open>for element in current_elements: self.insert(element)\<close>.
  \<open>self.insert\<close> is the \<open>insert\<close> of the dynamic class, passed as \<open>ins\<close>.
\<close>

fun reinsert ::
  "(dyn_table \<Rightarrow> entry \<Rightarrow> (error + dyn_table) option) \<Rightarrow> dyn_table \<Rightarrow> entry list
     \<Rightarrow> (error + dyn_table) option" where
  "reinsert ins st [] = Some (Inr st)"
| "reinsert ins st (element # rest) =
     (case ins st element of
        None \<Rightarrow> None
      | Some (Inl e) \<Rightarrow> Some (Inl e)
      | Some (Inr st') \<Rightarrow> reinsert ins st' rest)"

text \<open>
  \<open>DynamicHashSet.rehash\<close>: the table is reset by
  \<open>self.__init__(self.collision_type, (self.z, new_size))\<close>, a pair of parameters
  whatever the strategy is.
\<close>

definition rehash_set ::
  "(dyn_table \<Rightarrow> entry \<Rightarrow> (error + dyn_table) option) \<Rightarrow> dyn_table
     \<Rightarrow> (error + dyn_table) option" where
  "rehash_set ins st =
     (case get_next_size (prime_sizes st) of
        Inl e \<Rightarrow> Some (Inl e)
      | Inr (new_size, ps) \<Rightarrow>
         (case current_elements (tbl st) of
            Inl e \<Rightarrow> Some (Inl e)
          | Inr elements \<Rightarrow>
             (case init_table (is_hashmap (tbl st)) (collision_type (tbl st))
                     [z (tbl st), new_size] of
                Inl e \<Rightarrow> Some (Inl e)
              | Inr t0 \<Rightarrow> reinsert ins \<lparr>tbl = t0, prime_sizes = ps\<rparr> elements)))"

text \<open>
  \<open>DynamicHashMap.rehash\<close>: the reset reads \<open>self.params\<close>, an attribute that no
  class of the module sets, so the statement raises \<open>AttributeError\<close> and the
  reinsertion loop after it is never reached.
\<close>

definition rehash_map ::
  "(dyn_table \<Rightarrow> entry \<Rightarrow> (error + dyn_table) option) \<Rightarrow> dyn_table
     \<Rightarrow> (error + dyn_table) option" where
  "rehash_map ins st =
     (case get_next_size (prime_sizes st) of
        Inl e \<Rightarrow> Some (Inl e)
      | Inr (new_size, ps) \<Rightarrow>
         (case current_elements (tbl st) of
            Inl e \<Rightarrow> Some (Inl e)
          | Inr elements \<Rightarrow> Some (Inl AttributeError)))"

text \<open>
  \<open>DynamicHashSet.insert\<close> and \<open>DynamicHashMap.insert\<close>, which differ in the
  \<open>rehash\<close> they reach: \<open>super().insert(x)\<close>, then
  \<open>if self.get_load() >= 0.5: self.rehash()\<close>.
\<close>

definition dyn_insert_body ::
  "(dyn_table \<Rightarrow> entry \<Rightarrow> (error + dyn_table) option) \<Rightarrow> nat \<Rightarrow> dyn_table \<Rightarrow> entry
     \<Rightarrow> (error + dyn_table) option" where
  "dyn_insert_body ins n st x =
     (case insert_ht n (tbl st) x of
        None \<Rightarrow> None
      | Some (Inl e) \<Rightarrow> Some (Inl e)
      | Some (Inr t') \<Rightarrow>
         (case get_load t' of
            Inl e \<Rightarrow> Some (Inl e)
          | Inr load \<Rightarrow>
              if load \<ge> 1 / 2 then
                (if is_hashmap t' then rehash_map ins (st\<lparr>tbl := t'\<rparr>)
                 else rehash_set ins (st\<lparr>tbl := t'\<rparr>))
              else Some (Inr (st\<lparr>tbl := t'\<rparr>))))"

text \<open>
  \<open>insert\<close> calls \<open>rehash\<close>, whose loop calls \<open>insert\<close> again. The first
  argument bounds the depth of this nesting: \<open>insert_dyn d\<close> can enter \<open>rehash\<close> at
  most \<open>d\<close> levels deep, and the result is \<open>None\<close> when a deeper level would be
  needed. The second argument is the bound on probes of \<open>insert_ht\<close>.
\<close>

fun insert_dyn :: "nat \<Rightarrow> nat \<Rightarrow> dyn_table \<Rightarrow> entry \<Rightarrow> (error + dyn_table) option" where
  "insert_dyn 0 n st x = dyn_insert_body (\<lambda>st' x'. None) n st x"
| "insert_dyn (Suc d) n st x = dyn_insert_body (insert_dyn d n) n st x"

section \<open>The specification's hash functions\<close>

text \<open>
  A second definition of the two hash functions, written from the words of the
  specification, to compare \<open>get_slot\<close> and \<open>secondary_step\<close> with.
  A key is made of ASCII letters; a lower-case letter has its position in the alphabet
  (0 to 25) as value, an upper-case letter 26 more than its position (26 to 51).
\<close>

definition lowercase_letters :: string where
  "lowercase_letters = ''abcdefghijklmnopqrstuvwxyz''"

definition uppercase_letters :: string where
  "uppercase_letters = ''ABCDEFGHIJKLMNOPQRSTUVWXYZ''"

definition ascii_letter :: "char \<Rightarrow> bool" where
  "ascii_letter c = (c \<in> set lowercase_letters \<or> c \<in> set uppercase_letters)"

fun position :: "char \<Rightarrow> string \<Rightarrow> int" where
  "position c [] = 0"
| "position c (x # xs) = (if c = x then 0 else 1 + position c xs)"

definition spec_value :: "char \<Rightarrow> int" where
  "spec_value c =
     (if c \<in> set lowercase_letters then position c lowercase_letters
      else 26 + position c uppercase_letters)"

text \<open>
  The accumulator after the characters of the key have been taken from the last to the
  first: the first character of the key is the last one to enter.
\<close>

fun spec_poly :: "int \<Rightarrow> int \<Rightarrow> string \<Rightarrow> int" where
  "spec_poly zz sz [] = 0"
| "spec_poly zz sz (c # cs) = (spec_poly zz sz cs * zz + spec_value c) mod sz"

definition spec_slot :: "int \<Rightarrow> int \<Rightarrow> string \<Rightarrow> int" where
  "spec_slot zz sz key = spec_poly zz sz key mod sz"

fun spec_accumulate :: "int \<Rightarrow> string \<Rightarrow> int" where
  "spec_accumulate zz [] = 0"
| "spec_accumulate zz (c # cs) = spec_accumulate zz cs * zz + spec_value c"

definition spec_step :: "int \<Rightarrow> int \<Rightarrow> string \<Rightarrow> int" where
  "spec_step zz cc key = cc - spec_accumulate zz key mod cc"

section \<open>Well-formed and reachable tables\<close>

text \<open>
  What \<open>__init__\<close> establishes and every method keeps: the slot array has
  \<open>table_size\<close> slots (none when the size is not positive), of the shape of the
  strategy. A well-formed table has a positive size in addition.
\<close>

definition slots_ok :: "hash_table \<Rightarrow> bool" where
  "slots_ok t =
     (case table t of
        Chained buckets \<Rightarrow> collision_type t = Chain \<and> length buckets = nat (table_size t)
      | Probed cells \<Rightarrow> collision_type t \<noteq> Chain \<and> length cells = nat (table_size t))"

definition wf_table :: "hash_table \<Rightarrow> bool" where
  "wf_table t = (1 \<le> table_size t \<and> slots_ok t)"

text \<open>The entries a table holds, in slot order.\<close>

definition cell_entries :: "entry option list \<Rightarrow> entry list" where
  "cell_entries cells =
     concat (map (\<lambda>slot. case slot of None \<Rightarrow> [] | Some item \<Rightarrow> [item]) cells)"

definition entries :: "hash_table \<Rightarrow> entry list" where
  "entries t =
     (case table t of Chained buckets \<Rightarrow> concat buckets | Probed cells \<Rightarrow> cell_entries cells)"

text \<open>\<open>total_elements\<close> is the number of entries held.\<close>

definition counted :: "hash_table \<Rightarrow> bool" where
  "counted t = (total_elements t = int (length (entries t)))"

text \<open>
  The two ways a call of \<open>insert\<close> changes a table: an entry appended to a bucket, or
  an entry stored into a vacant cell; the count grows by one in both.
\<close>

definition chain_update :: "hash_table \<Rightarrow> hash_table \<Rightarrow> entry \<Rightarrow> bool" where
  "chain_update t t' x =
     (\<exists>buckets j. table t = Chained buckets \<and> collision_type t = Chain \<and> j < length buckets \<and>
        t' = t\<lparr>table := Chained (buckets[j := buckets ! j @ [x]]),
               total_elements := total_elements t + 1\<rparr>)"

definition cell_update :: "hash_table \<Rightarrow> hash_table \<Rightarrow> entry \<Rightarrow> bool" where
  "cell_update t t' x =
     (\<exists>cells j. table t = Probed cells \<and> collision_type t \<noteq> Chain \<and> j < length cells \<and>
        cells ! j = None \<and>
        t' = t\<lparr>table := Probed (cells[j := Some x]),
               total_elements := total_elements t + 1\<rparr>)"

text \<open>
  A table in which nothing stored is false in Python's sense: no bare key is the empty
  string and no stored value is \<open>None\<close>, \<open>False\<close>, 0 or the empty string.
\<close>

definition all_truthy :: "hash_table \<Rightarrow> bool" where
  "all_truthy t = list_all (\<lambda>item. item_truthy item \<and> truthy (item_result item)) (entries t)"

text \<open>A probing table without a vacant slot.\<close>

definition all_occupied :: "hash_table \<Rightarrow> bool" where
  "all_occupied t =
     (case table t of Chained buckets \<Rightarrow> False | Probed cells \<Rightarrow> list_all (\<lambda>slot. slot \<noteq> None) cells)"

text \<open>
  The tables a program can hold: built by the constructor of \<open>HashSet\<close> or
  \<open>HashMap\<close> with a positive size, then changed by calls of \<open>insert\<close> that return.
\<close>

inductive reachable :: "hash_table \<Rightarrow> bool" where
  reach_init: "init_table hm ct params = Inr t \<Longrightarrow> 1 \<le> table_size t \<Longrightarrow> reachable t"
| reach_insert: "reachable t \<Longrightarrow> insert_ht n t x = Some (Inr t') \<Longrightarrow> reachable t'"

text \<open>
  The same for the dynamic classes, whose \<open>insert\<close> is \<open>insert_dyn\<close>;
  \<open>set_primes\<close> may replace the list of sizes at any time.
\<close>

inductive dyn_reachable :: "dyn_table \<Rightarrow> bool" where
  dyn_init: "init_table hm ct params = Inr t \<Longrightarrow> 1 \<le> table_size t
               \<Longrightarrow> dyn_reachable \<lparr>tbl = t, prime_sizes = ps\<rparr>"
| dyn_set_primes: "dyn_reachable st \<Longrightarrow> dyn_reachable (st\<lparr>prime_sizes := ps\<rparr>)"
| dyn_insert: "dyn_reachable st \<Longrightarrow> insert_dyn d n st x = Some (Inr st') \<Longrightarrow> dyn_reachable st'"

text \<open>
  Bounds that suffice for a call of the dynamic \<open>insert\<close>: the probe bound \<open>n\<close> is at
  least the size of the table and every size still in the list, and the depth bound
  \<open>d\<close> is at least the number of sizes left. \<open>sizes_from st st'\<close> says where the
  size of the table and the list of sizes of \<open>st'\<close> come from when a call takes
  \<open>st\<close> to \<open>st'\<close>.
\<close>

definition sizes_from :: "dyn_table \<Rightarrow> dyn_table \<Rightarrow> bool" where
  "sizes_from st st' =
     (length (prime_sizes st') \<le> length (prime_sizes st)
      \<and> set (prime_sizes st') \<subseteq> set (prime_sizes st)
      \<and> (table_size (tbl st') = table_size (tbl st)
           \<or> table_size (tbl st') \<in> set (prime_sizes st)))"

definition within_bounds :: "nat \<Rightarrow> nat \<Rightarrow> dyn_table \<Rightarrow> bool" where
  "within_bounds d n st =
     (slots_ok (tbl st) \<and> counted (tbl st) \<and> 1 \<le> n \<and> table_size (tbl st) \<le> int n
      \<and> list_all (\<lambda>p. p \<le> int n) (prime_sizes st) \<and> length (prime_sizes st) \<le> d)"

section \<open>The hash functions agree with the specification\<close>

lemma char_value_letter: "ascii_letter c \<Longrightarrow> char_value c = spec_value c"
  unfolding ascii_letter_def lowercase_letters_def uppercase_letters_def
  by (auto simp: char_value_def spec_value_def py_islower_def lowercase_letters_def
        uppercase_letters_def)

lemma spec_value_range:
  "ascii_letter c \<Longrightarrow>
     (c \<in> set lowercase_letters \<longrightarrow> 0 \<le> spec_value c \<and> spec_value c \<le> 25) \<and>
     (c \<in> set uppercase_letters \<longrightarrow> 26 \<le> spec_value c \<and> spec_value c \<le> 51)"
  unfolding ascii_letter_def lowercase_letters_def uppercase_letters_def
  by (auto simp: spec_value_def lowercase_letters_def uppercase_letters_def)

lemma foldl_rev_poly:
  "list_all ascii_letter key \<Longrightarrow>
   foldl (\<lambda>poly c. (poly * zz + char_value c) mod sz) 0 (rev key) = spec_poly zz sz key"
  by (induction key) (simp_all add: char_value_letter)

lemma foldl_rev_accumulate:
  "list_all ascii_letter key \<Longrightarrow>
   foldl (\<lambda>step c. step * zz + char_value c) 0 (rev key) = spec_accumulate zz key"
  by (induction key) (simp_all add: char_value_letter)

text \<open>
  Claim C6. For a table whose size is not zero and a key of ASCII letters, the slot that
  \<open>get_slot\<close> computes is the one the specification describes: the characters are
  taken from the last to the first, the accumulator becomes
  \<open>(poly * z + value) mod size\<close> at each character, with the values 0 to 25 for
  lower-case and 26 to 51 for upper-case letters, and the final accumulator is reduced
  modulo the size once more.
\<close>

theorem get_slot_is_spec_slot:
  assumes "table_size t \<noteq> 0" and "list_all ascii_letter key"
  shows "get_slot t key = Inr (spec_slot (z t) (table_size t) key)"
  using assms by (simp add: get_slot_def spec_slot_def foldl_rev_poly)

theorem get_slot_is_spec_slot_witness:
  "get_slot \<lparr>is_hashmap = False, collision_type = Chain, z = 31, z2 = 0, c2 = 0,
             table_size = 29, total_elements = 0, table = Chained (replicate 29 [])\<rparr> ''catDOG''
     = Inr 2
   \<and> spec_slot 31 29 ''catDOG'' = 2"
proof -
  let ?t = "\<lparr>is_hashmap = False, collision_type = Chain, z = 31, z2 = 0, c2 = 0,
             table_size = 29, total_elements = 0, table = Chained (replicate 29 [])\<rparr>"
  have size: "table_size ?t \<noteq> 0" by simp
  have letters: "list_all ascii_letter ''catDOG''" by code_simp
  have slot: "spec_slot 31 29 ''catDOG'' = 2" by code_simp
  from get_slot_is_spec_slot [OF size letters] slot show ?thesis by simp
qed

text \<open>
  Claim C7. For a table of the Double strategy with \<open>c2 \<ge> 1\<close> and a key of ASCII
  letters, the step that \<open>insert\<close> and \<open>find\<close> compute is \<open>c2 - (A mod c2)\<close>,
  where \<open>A\<close> accumulates the character values from the last character to the first
  with the multiplier \<open>z2\<close> and without reduction; the step lies between 1 and
  \<open>c2\<close>. It is the step of the probe loop of \<open>find\<close>, and of the probe loop of
  \<open>insert\<close> when the insert gets there (the key was not found).
\<close>

theorem secondary_step_is_spec_step:
  assumes "1 \<le> c2 t" and "list_all ascii_letter key"
  shows "secondary_step t key = Inr (spec_step (z2 t) (c2 t) key)
         \<and> 1 \<le> spec_step (z2 t) (c2 t) key \<and> spec_step (z2 t) (c2 t) key \<le> c2 t
         \<and> (collision_type t = Double \<and> table t = Probed cells \<and> get_slot t key = Inr idx
              \<longrightarrow> find_ht n t key
                    = find_probe n cells (table_size t) (spec_step (z2 t) (c2 t) key) key
                        (miss t) idx idx)
         \<and> (collision_type t = Double \<and> entry_key x = key \<and> get_slot t key = Inr idx
              \<and> find_ht n t key = Some (Inr found) \<and> \<not> truthy found
              \<longrightarrow> insert_ht n t x
                    = insert_probing n t (spec_step (z2 t) (c2 t) key) idx x)"
proof -
  let ?a = "spec_accumulate (z2 t) key"
  from assms(1) have "0 \<le> ?a mod c2 t" and "?a mod c2 t < c2 t"
    by simp_all
  then have range: "1 \<le> c2 t - ?a mod c2 t" "c2 t - ?a mod c2 t \<le> c2 t"
    by linarith+
  from assms have step: "secondary_step t key = Inr (spec_step (z2 t) (c2 t) key)"
    by (simp add: secondary_step_def foldl_rev_accumulate spec_step_def)
  from step have "find_ht n t key
      = find_probe n cells (table_size t) (spec_step (z2 t) (c2 t) key) key (miss t) idx idx"
    if "collision_type t = Double" "table t = Probed cells" "get_slot t key = Inr idx"
    using that by (simp add: find_ht_def)
  moreover from step have "insert_ht n t x
      = insert_probing n t (spec_step (z2 t) (c2 t) key) idx x"
    if "collision_type t = Double" "entry_key x = key" "get_slot t key = Inr idx"
      "find_ht n t key = Some (Inr found)" "\<not> truthy found"
    using that by (simp add: insert_ht_def Let_def)
  ultimately show ?thesis using step range
    by (simp add: spec_step_def)
qed

theorem secondary_step_is_spec_step_witness:
  "secondary_step \<lparr>is_hashmap = True, collision_type = Double, z = 31, z2 = 37, c2 = 17,
                   table_size = 5, total_elements = 1,
                   table = Probed [Some (KeyVal ''a'' (PInt 1)), None, None, None, None]\<rparr>
     ''keyB'' = Inr 2
   \<and> spec_step 37 17 ''keyB'' = 2
   \<and> get_slot \<lparr>is_hashmap = True, collision_type = Double, z = 31, z2 = 37, c2 = 17,
               table_size = 5, total_elements = 1,
               table = Probed [Some (KeyVal ''a'' (PInt 1)), None, None, None, None]\<rparr>
       ''keyB'' = Inr 0
   \<and> find_ht 5 \<lparr>is_hashmap = True, collision_type = Double, z = 31, z2 = 37, c2 = 17,
               table_size = 5, total_elements = 1,
               table = Probed [Some (KeyVal ''a'' (PInt 1)), None, None, None, None]\<rparr>
       ''keyB''
     = find_probe 5 [Some (KeyVal ''a'' (PInt 1)), None, None, None, None] 5 2 ''keyB'' PNone 0 0
   \<and> insert_ht 5 \<lparr>is_hashmap = True, collision_type = Double, z = 31, z2 = 37, c2 = 17,
               table_size = 5, total_elements = 1,
               table = Probed [Some (KeyVal ''a'' (PInt 1)), None, None, None, None]\<rparr>
       (KeyVal ''keyB'' (PInt 2))
     = insert_probing 5 \<lparr>is_hashmap = True, collision_type = Double, z = 31, z2 = 37, c2 = 17,
               table_size = 5, total_elements = 1,
               table = Probed [Some (KeyVal ''a'' (PInt 1)), None, None, None, None]\<rparr>
         2 0 (KeyVal ''keyB'' (PInt 2))"
proof -
  let ?t = "\<lparr>is_hashmap = True, collision_type = Double, z = 31, z2 = 37, c2 = 17,
             table_size = 5, total_elements = 1,
             table = Probed [Some (KeyVal ''a'' (PInt 1)), None, None, None, None]\<rparr>"
  have bound: "1 \<le> c2 ?t" by simp
  have letters: "list_all ascii_letter ''keyB''" by code_simp
  have step: "spec_step 37 17 ''keyB'' = 2" by code_simp
  have slot: "get_slot ?t ''keyB'' = Inr 0" by code_simp
  have found: "find_ht 5 ?t ''keyB'' = Some (Inr PNone)" by code_simp
  from secondary_step_is_spec_step [OF bound letters,
      of "[Some (KeyVal ''a'' (PInt 1)), None, None, None, None]" 0 5
         "KeyVal ''keyB'' (PInt 2)" PNone]
    step slot found
  show ?thesis by (simp add: miss_def)
qed

section \<open>Slot indices and the probe loops\<close>

text \<open>
  A probe that starts at \<open>orig\<close> is at \<open>(orig + k * step) mod size\<close> after \<open>k\<close>
  steps, whatever the step is, and so back at \<open>orig\<close> after \<open>size\<close> steps: a bound of
  \<open>size\<close> examined slots is never used up. On a slot array of \<open>size\<close> slots the
  loops raise nothing.
\<close>

lemma py_index_in_range:
  "0 \<le> i \<Longrightarrow> i < int (length xs) \<Longrightarrow> py_index xs i = Inr (nat i)"
  by (simp add: py_index_def)

lemma py_get_in_range:
  "0 \<le> i \<Longrightarrow> i < int (length xs) \<Longrightarrow> py_get xs i = Inr (xs ! nat i)"
  by (simp add: py_get_def py_index_in_range)

lemma get_slot_range:
  assumes "1 \<le> table_size t"
  shows "\<exists>i. get_slot t key = Inr i \<and> 0 \<le> i \<and> i < table_size t"
  using assms by (simp add: get_slot_def)

lemma probe_next:
  fixes sz :: int
  assumes "idx = (orig + int k * step) mod sz"
  shows "(idx + step) mod sz = (orig + int (Suc k) * step) mod sz"
proof -
  have "(idx + step) mod sz = ((orig + int k * step) + step) mod sz"
    using assms by (simp add: mod_add_left_eq)
  also have "(orig + int k * step) + step = orig + int (Suc k) * step"
    by (simp add: algebra_simps)
  finally show ?thesis .
qed

lemma probe_cycle:
  fixes sz :: int
  assumes "1 \<le> sz" "0 \<le> orig" "orig < sz" "Suc k = nat sz"
  shows "(orig + int (Suc k) * step) mod sz = orig"
proof -
  from assms have "int (Suc k) = sz" by linarith
  then have "(orig + int (Suc k) * step) mod sz = (orig + sz * step) mod sz" by simp
  also have "\<dots> = orig mod sz" by simp
  also from assms have "\<dots> = orig" by simp
  finally show ?thesis .
qed

lemma find_probe_fuel:
  assumes "1 \<le> sz" "0 \<le> orig" "orig < sz"
  shows "idx = (orig + int k * step) mod sz \<Longrightarrow> k < nat sz \<Longrightarrow> nat sz - k \<le> n
           \<Longrightarrow> find_probe n cells sz step key nf orig idx \<noteq> None"
proof (induction n arbitrary: k idx)
  case 0
  then show ?case by simp
next
  case (Suc n)
  let ?idx' = "(idx + step) mod sz"
  have next_idx: "?idx' = (orig + int (Suc k) * step) mod sz"
    using Suc.prems(1) by (rule probe_next)
  show ?case
  proof (cases "Suc k = nat sz")
    case True
    with assms have "?idx' = orig"
      using next_idx probe_cycle by simp
    then show ?thesis
      by (simp split: sum.splits option.splits)
  next
    case False
    with Suc.prems have "Suc k < nat sz" "nat sz - Suc k \<le> n" by linarith+
    with Suc.IH [OF next_idx] have "find_probe n cells sz step key nf orig ?idx' \<noteq> None"
      by simp
    then show ?thesis
      by (simp split: sum.splits option.splits add: Let_def)
  qed
qed

lemma insert_probe_fuel:
  assumes "1 \<le> sz" "0 \<le> orig" "orig < sz"
  shows "idx = (orig + int k * step) mod sz \<Longrightarrow> k < nat sz \<Longrightarrow> nat sz - k \<le> n
           \<Longrightarrow> insert_probe n cells sz step orig idx \<noteq> None"
proof (induction n arbitrary: k idx)
  case 0
  then show ?case by simp
next
  case (Suc n)
  let ?idx' = "(idx + step) mod sz"
  have next_idx: "?idx' = (orig + int (Suc k) * step) mod sz"
    using Suc.prems(1) by (rule probe_next)
  show ?case
  proof (cases "Suc k = nat sz")
    case True
    with assms have "?idx' = orig"
      using next_idx probe_cycle by simp
    then show ?thesis
      by (simp split: sum.splits option.splits)
  next
    case False
    with Suc.prems have "Suc k < nat sz" "nat sz - Suc k \<le> n" by linarith+
    with Suc.IH [OF next_idx] have "insert_probe n cells sz step orig ?idx' \<noteq> None"
      by simp
    then show ?thesis
      by (simp split: sum.splits option.splits add: Let_def)
  qed
qed

lemma find_probe_no_error:
  assumes "1 \<le> sz" "int (length cells) = sz"
  shows "0 \<le> idx \<Longrightarrow> idx < sz \<Longrightarrow> find_probe n cells sz step key nf orig idx \<noteq> Some (Inl e)"
proof (induction n arbitrary: idx)
  case 0
  then show ?case by simp
next
  case (Suc n)
  from assms(1) have "0 \<le> (idx + step) mod sz" "(idx + step) mod sz < sz" by simp_all
  then have "find_probe n cells sz step key nf orig ((idx + step) mod sz) \<noteq> Some (Inl e)"
    by (rule Suc.IH)
  moreover from Suc.prems assms have "py_get cells idx = Inr (cells ! nat idx)"
    by (simp add: py_get_in_range)
  ultimately show ?case
    by (simp split: option.splits add: Let_def)
qed

lemma insert_probe_result:
  assumes "1 \<le> sz" "int (length cells) = sz"
  shows "0 \<le> idx \<Longrightarrow> idx < sz \<Longrightarrow> insert_probe n cells sz step orig idx = Some r
          \<Longrightarrow> r = Inr None \<or> (\<exists>j. r = Inr (Some j) \<and> 0 \<le> j \<and> j < sz \<and> cells ! nat j = None)"
proof (induction n arbitrary: idx)
  case 0
  then show ?case by simp
next
  case (Suc n)
  from assms(1) have range': "0 \<le> (idx + step) mod sz" "(idx + step) mod sz < sz" by simp_all
  from Suc.prems assms have get: "py_get cells idx = Inr (cells ! nat idx)"
    by (simp add: py_get_in_range)
  show ?case
  proof (cases "cells ! nat idx")
    case None
    with Suc.prems get show ?thesis by auto
  next
    case (Some item)
    show ?thesis
    proof (cases "(idx + step) mod sz = orig")
      case True
      with Some get Suc.prems(3) show ?thesis by simp
    next
      case False
      with Some get Suc.prems(3)
      have "insert_probe n cells sz step orig ((idx + step) mod sz) = Some r" by simp
      with range' show ?thesis by (rule Suc.IH)
    qed
  qed
qed

section \<open>What a successful insert does\<close>

text \<open>
  A call of \<open>insert\<close> that returns leaves the table as it was (the key was found, or
  the probe came back to its start), appends the entry to a bucket, or stores it into a
  vacant cell. In each case the table holds an entry afterwards, the slot array keeps its
  shape and length, the parameters are unchanged and the count stays the number of
  entries.
\<close>

lemma py_index_less: "py_index xs i = Inr j \<Longrightarrow> j < length xs"
  by (auto simp: py_index_def Let_def split: if_splits)

lemma py_get_mem: "py_get xs i = Inr v \<Longrightarrow> v \<in> set xs"
  by (auto simp: py_get_def split: sum.splits dest: py_index_less)

lemma find_chain_hit: "find_chain bucket key nf \<noteq> nf \<Longrightarrow> bucket \<noteq> []"
  by (cases bucket) auto

lemma find_probe_hit:
  "find_probe n cells sz step key nf orig idx = Some (Inr r) \<Longrightarrow> r \<noteq> nf
     \<Longrightarrow> \<exists>item. Some item \<in> set cells"
proof (induction n arbitrary: idx)
  case 0
  then show ?case by simp
next
  case (Suc n)
  show ?case
  proof (cases "py_get cells idx")
    case (Inl e)
    with Suc.prems show ?thesis by simp
  next
    case (Inr slot)
    show ?thesis
    proof (cases slot)
      case None
      with Inr Suc.prems show ?thesis by simp
    next
      case (Some item)
      with Inr have "Some item \<in> set cells" by (auto dest: py_get_mem)
      then show ?thesis by blast
    qed
  qed
qed

lemma insert_probe_full:
  "insert_probe n cells sz step orig idx = Some (Inr None) \<Longrightarrow> \<exists>item. Some item \<in> set cells"
proof (cases n)
  case 0
  assume "insert_probe n cells sz step orig idx = Some (Inr None)"
  with 0 show ?thesis by simp
next
  case (Suc m)
  assume res: "insert_probe n cells sz step orig idx = Some (Inr None)"
  show ?thesis
  proof (cases "py_get cells idx")
    case (Inl e)
    with res Suc show ?thesis by simp
  next
    case (Inr slot)
    show ?thesis
    proof (cases slot)
      case None
      with Inr res Suc show ?thesis by simp
    next
      case (Some item)
      with Inr have "Some item \<in> set cells" by (auto dest: py_get_mem)
      then show ?thesis by blast
    qed
  qed
qed

lemma miss_falsy: "\<not> truthy (miss t)"
  by (simp add: miss_def)

lemma cell_entries_nonempty: "Some item \<in> set cells \<Longrightarrow> cell_entries cells \<noteq> []"
  by (auto simp: cell_entries_def intro!: bexI [of _ "Some item"])

lemma find_truthy_entries:
  assumes "find_ht n t key = Some (Inr r)" and "truthy r"
  shows "entries t \<noteq> []"
proof -
  from assms(2) have ne: "r \<noteq> miss t" using miss_falsy by auto
  show ?thesis
  proof (cases "table t")
    case (Chained buckets)
    with assms(1) obtain idx bucket where "py_get buckets idx = Inr bucket"
      and "r = find_chain bucket key (miss t)"
      by (auto simp: find_ht_def split: sum.splits collision.splits)
    with ne have "bucket \<in> set buckets" "bucket \<noteq> []"
      by (auto dest: py_get_mem find_chain_hit)
    with Chained show ?thesis by (auto simp: entries_def)
  next
    case (Probed cells)
    with assms(1) obtain sz step orig idx where
      "find_probe n cells sz step key (miss t) orig idx = Some (Inr r)"
      by (auto simp: find_ht_def split: sum.splits collision.splits)
    with ne obtain item where "Some item \<in> set cells"
      by (blast dest: find_probe_hit)
    with Probed show ?thesis by (simp add: entries_def cell_entries_nonempty)
  qed
qed

lemma insert_probe_vacant:
  "insert_probe n cells sz step orig idx = Some (Inr (Some p)) \<Longrightarrow> py_get cells p = Inr None"
proof (induction n arbitrary: idx)
  case 0
  then show ?case by simp
next
  case (Suc n)
  then show ?case
    by (auto simp: Let_def split: sum.splits option.splits if_splits)
qed

lemma insert_probing_cases:
  assumes "insert_probing n t step idx x = Some (Inr t')" "collision_type t \<noteq> Chain"
  shows "(t' = t \<and> entries t \<noteq> []) \<or> cell_update t t' x"
proof (cases "table t")
  case (Chained buckets)
  with assms show ?thesis by (simp add: insert_probing_def)
next
  case (Probed cells)
  with assms(1) obtain r where probe: "insert_probe n cells (table_size t) step idx idx = Some (Inr r)"
    by (auto simp: insert_probing_def split: option.splits sum.splits)
  show ?thesis
  proof (cases r)
    case None
    with probe obtain item where "Some item \<in> set cells" by (blast dest: insert_probe_full)
    with Probed have "entries t \<noteq> []" by (simp add: entries_def cell_entries_nonempty)
    moreover from None probe Probed assms(1) have "t' = t" by (simp add: insert_probing_def)
    ultimately show ?thesis by simp
  next
    case (Some p)
    with probe have "py_get cells p = Inr None" by (simp add: insert_probe_vacant)
    then obtain j where j: "py_index cells p = Inr j" "cells ! j = None"
      by (auto simp: py_get_def split: sum.splits)
    then have "j < length cells" by (simp add: py_index_less)
    moreover from Some probe Probed assms(1) j
    have "t' = t\<lparr>table := Probed (cells[j := Some x]), total_elements := total_elements t + 1\<rparr>"
      by (simp add: insert_probing_def store_cell_def)
    ultimately show ?thesis using Probed assms(2) j unfolding cell_update_def by blast
  qed
qed

lemma insert_ht_cases:
  assumes "insert_ht n t x = Some (Inr t')"
  shows "(t' = t \<and> entries t \<noteq> []) \<or> chain_update t t' x \<or> cell_update t t' x"
proof -
  from assms obtain r where found: "find_ht n t (entry_key x) = Some (Inr r)"
    by (auto simp: insert_ht_def Let_def split: option.splits sum.splits)
  show ?thesis
  proof (cases "truthy r")
    case True
    with found have "entries t \<noteq> []" by (rule find_truthy_entries)
    moreover from True found assms have "t' = t" by (simp add: insert_ht_def Let_def)
    ultimately show ?thesis by simp
  next
    case False
    with found assms obtain idx where slot: "get_slot t (entry_key x) = Inr idx"
      by (auto simp: insert_ht_def Let_def split: sum.splits)
    show ?thesis
    proof (cases "collision_type t")
      case Chain
      with False found slot assms obtain buckets where b: "table t = Chained buckets"
        and app: "append_bucket t buckets idx x = Inr t'"
        by (auto simp: insert_ht_def Let_def split: storage.splits)
      from app obtain j where "py_index buckets idx = Inr j"
        and "t' = t\<lparr>table := Chained (buckets[j := buckets ! j @ [x]]), total_elements := total_elements t + 1\<rparr>"
        by (auto simp: append_bucket_def split: sum.splits)
      with b Chain have "chain_update t t' x"
        unfolding chain_update_def by (auto dest: py_index_less)
      then show ?thesis by simp
    next
      case Linear
      with False found slot assms have "insert_probing n t 1 idx x = Some (Inr t')"
        by (simp add: insert_ht_def Let_def)
      with Linear show ?thesis by (auto dest: insert_probing_cases)
    next
      case Double
      with False found slot assms obtain step where "insert_probing n t step idx x = Some (Inr t')"
        by (auto simp: insert_ht_def Let_def split: sum.splits)
      with Double show ?thesis by (auto dest: insert_probing_cases)
    qed
  qed
qed

lemma length_concat_append_at:
  "j < length buckets \<Longrightarrow>
     length (concat (buckets[j := buckets ! j @ [x]])) = Suc (length (concat buckets))"
proof (induction buckets arbitrary: j)
  case Nil
  then show ?case by simp
next
  case (Cons b buckets)
  then show ?case by (cases j) simp_all
qed

lemma length_cell_entries_store:
  "j < length cells \<Longrightarrow> cells ! j = None \<Longrightarrow>
     length (cell_entries (cells[j := Some x])) = Suc (length (cell_entries cells))"
proof (induction cells arbitrary: j)
  case Nil
  then show ?case by simp
next
  case (Cons c cells)
  then show ?case by (cases j) (simp_all add: cell_entries_def)
qed

lemma length_cell_entries_le: "length (cell_entries cells) \<le> length cells"
  by (induction cells) (simp_all add: cell_entries_def split: option.splits)

lemma chain_update_entries:
  "chain_update t t' x \<Longrightarrow> length (entries t') = Suc (length (entries t))"
  unfolding chain_update_def by (auto simp: entries_def length_concat_append_at)

lemma cell_update_entries:
  "cell_update t t' x \<Longrightarrow> length (entries t') = Suc (length (entries t))"
  unfolding cell_update_def by (auto simp: entries_def length_cell_entries_store)

lemma insert_ht_entries: 
  assumes "insert_ht n t x = Some (Inr t')"
  shows "entries t' \<noteq> []"
  using insert_ht_cases [OF assms] chain_update_entries [of t t' x] cell_update_entries [of t t' x]
  by auto

lemma insert_ht_fields:
  assumes "insert_ht n t x = Some (Inr t')"
  shows "is_hashmap t' = is_hashmap t \<and> collision_type t' = collision_type t \<and> z t' = z t
         \<and> z2 t' = z2 t \<and> c2 t' = c2 t \<and> table_size t' = table_size t"
  using insert_ht_cases [OF assms] unfolding chain_update_def cell_update_def by auto

lemma insert_ht_slots_ok:
  assumes "insert_ht n t x = Some (Inr t')" "slots_ok t"
  shows "slots_ok t'"
  using insert_ht_cases [OF assms(1)] assms(2) unfolding chain_update_def cell_update_def
  by (auto simp: slots_ok_def)

lemma insert_ht_counted:
  assumes "insert_ht n t x = Some (Inr t')" "counted t"
  shows "counted t'"
proof -
  from insert_ht_cases [OF assms(1)]
  consider "t' = t" | "chain_update t t' x" | "cell_update t t' x" by blast
  then show ?thesis
  proof cases
    case 1
    with assms(2) show ?thesis by simp
  next
    case 2
    then have "total_elements t' = total_elements t + 1" unfolding chain_update_def by auto
    with 2 assms(2) show ?thesis by (simp add: counted_def chain_update_entries)
  next
    case 3
    then have "total_elements t' = total_elements t + 1" unfolding cell_update_def by auto
    with 3 assms(2) show ?thesis by (simp add: counted_def cell_update_entries)
  qed
qed

lemma slots_ok_entries_size:
  assumes "slots_ok t" "entries t \<noteq> []"
  shows "1 \<le> table_size t"
proof (rule ccontr)
  assume "\<not> 1 \<le> table_size t"
  then have "nat (table_size t) = 0" by simp
  with assms(1) have "entries t = []"
    by (auto simp: slots_ok_def entries_def cell_entries_def split: storage.splits)
  with assms(2) show False by simp
qed

lemma insert_ht_wf:
  assumes "insert_ht n t x = Some (Inr t')" "slots_ok t"
  shows "wf_table t'"
  using assms insert_ht_slots_ok [OF assms] insert_ht_entries [OF assms(1)]
  by (simp add: wf_table_def slots_ok_entries_size)

lemma insert_ht_double_c2:
  assumes "insert_ht n t x = Some (Inr t')" "collision_type t = Double"
  shows "c2 t \<noteq> 0"
proof
  assume "c2 t = 0"
  then have "secondary_step t (entry_key x) = Inl ZeroDivisionError"
    by (simp add: secondary_step_def)
  with assms(2) have "\<exists>e. find_ht n t (entry_key x) = Some (Inl e)"
    by (auto simp: find_ht_def split: sum.splits)
  with assms(1) show False by (auto simp: insert_ht_def Let_def)
qed

lemma init_table_slots_ok: "init_table hm ct params = Inr t \<Longrightarrow> slots_ok t \<and> counted t \<and> entries t = []"
  by (auto simp: init_table_def slots_ok_def counted_def entries_def cell_entries_def split: if_splits)

lemma init_table_fields: "init_table hm ct params = Inr t \<Longrightarrow> is_hashmap t = hm \<and> collision_type t = ct \<and> total_elements t = 0"
  by (auto simp: init_table_def split: if_splits)

section \<open>Termination and errors of find and insert\<close>

text \<open>
  On a well-formed table \<open>find\<close> and \<open>insert\<close> return within a bound of
  \<open>table_size\<close> probes per loop, the only exception they raise is the
  \<open>ZeroDivisionError\<close> of a Double table with \<open>c2 = 0\<close>, and a larger bound
  does not change a result.
\<close>

lemma wf_table_cases:
  assumes "wf_table t"
  obtains (chained) buckets where "table t = Chained buckets" "collision_type t = Chain"
      "int (length buckets) = table_size t" "1 \<le> table_size t"
  | (probed) cells where "table t = Probed cells" "collision_type t \<noteq> Chain"
      "int (length cells) = table_size t" "1 \<le> table_size t"
  using assms by (cases "table t") (auto simp: wf_table_def slots_ok_def)

lemma secondary_step_error:
  "secondary_step t key = Inl e \<Longrightarrow> e = ZeroDivisionError \<and> c2 t = 0"
  by (auto simp: secondary_step_def Let_def split: if_splits)

lemma find_ht_total:
  assumes "wf_table t" "nat (table_size t) \<le> n"
  shows "find_ht n t key \<noteq> None"
proof -
  from assms(1) have size: "1 \<le> table_size t" by (simp add: wf_table_def)
  then obtain idx where slot: "get_slot t key = Inr idx" and range: "0 \<le> idx" "idx < table_size t"
    using get_slot_range by blast
  from assms(1) show ?thesis
  proof (cases rule: wf_table_cases)
    case (chained buckets)
    with slot show ?thesis by (simp add: find_ht_def split: sum.splits)
  next
    case (probed cells)
    have "find_probe n cells (table_size t) step key (miss t) idx idx \<noteq> None" for step
    proof (rule find_probe_fuel [where k = 0])
      show "idx = (idx + int 0 * step) mod table_size t" using range by simp
      show "0 < nat (table_size t)" using size by simp
      show "nat (table_size t) - 0 \<le> n" using assms(2) by simp
    qed (use size range in simp_all)
    with probed slot show ?thesis
      by (cases "collision_type t") (simp_all add: find_ht_def split: sum.splits)
  qed
qed

lemma find_ht_error:
  assumes "wf_table t" "find_ht n t key = Some (Inl e)"
  shows "e = ZeroDivisionError \<and> collision_type t = Double \<and> c2 t = 0"
proof -
  from assms(1) have size: "1 \<le> table_size t" by (simp add: wf_table_def)
  then obtain idx where slot: "get_slot t key = Inr idx" and range: "0 \<le> idx" "idx < table_size t"
    using get_slot_range by blast
  from assms(1) show ?thesis
  proof (cases rule: wf_table_cases)
    case (chained buckets)
    with range have "py_get buckets idx = Inr (buckets ! nat idx)" by (simp add: py_get_in_range)
    with chained slot assms(2) show ?thesis by (simp add: find_ht_def)
  next
    case (probed cells)
    have no: "find_probe n cells (table_size t) step key (miss t) idx idx \<noteq> Some (Inl e)" for step
      using size probed(3) range by (rule find_probe_no_error)
    show ?thesis
    proof (cases "collision_type t")
      case Chain
      with probed show ?thesis by simp
    next
      case Linear
      with probed slot assms(2) no show ?thesis by (simp add: find_ht_def)
    next
      case Double
      with probed slot assms(2) no show ?thesis
        by (auto simp: find_ht_def split: sum.splits dest: secondary_step_error)
    qed
  qed
qed

lemma insert_probing_total:
  assumes "wf_table t" "nat (table_size t) \<le> n" "0 \<le> idx" "idx < table_size t"
  shows "insert_probing n t step idx x \<noteq> None"
proof -
  from assms(1) have size: "1 \<le> table_size t" by (simp add: wf_table_def)
  have "insert_probe n cells (table_size t) step idx idx \<noteq> None" for cells
  proof (rule insert_probe_fuel [where k = 0])
    show "idx = (idx + int 0 * step) mod table_size t" using assms by simp
    show "0 < nat (table_size t)" using size by simp
    show "nat (table_size t) - 0 \<le> n" using assms(2) by simp
  qed (use size assms in simp_all)
  then show ?thesis
    by (cases "table t") (fastforce simp: insert_probing_def split: option.splits sum.splits)+
qed

lemma insert_probing_no_error:
  assumes "wf_table t" "0 \<le> idx" "idx < table_size t" "collision_type t \<noteq> Chain"
  shows "insert_probing n t step idx x \<noteq> Some (Inl e)"
proof
  assume err: "insert_probing n t step idx x = Some (Inl e)"
  from assms(1) show False
  proof (cases rule: wf_table_cases)
    case (chained buckets)
    with assms(4) show ?thesis by simp
  next
    case (probed cells)
    show ?thesis
    proof (cases "insert_probe n cells (table_size t) step idx idx")
      case None
      with probed err show ?thesis by (simp add: insert_probing_def)
    next
      case (Some r)
      from insert_probe_result [OF probed(4) probed(3) assms(2,3) Some]
      show ?thesis
      proof
        assume "r = Inr None"
        with Some probed err show ?thesis by (simp add: insert_probing_def)
      next
        assume "\<exists>j. r = Inr (Some j) \<and> 0 \<le> j \<and> j < table_size t \<and> cells ! nat j = None"
        then obtain j where j: "r = Inr (Some j)" "0 \<le> j" "j < table_size t" by blast
        with probed have "py_index cells j = Inr (nat j)" by (simp add: py_index_in_range)
        with j Some probed err show ?thesis by (simp add: insert_probing_def store_cell_def)
      qed
    qed
  qed
qed

lemma insert_ht_total:
  assumes "wf_table t" "nat (table_size t) \<le> n"
  shows "insert_ht n t x \<noteq> None"
proof -
  from assms(1) have size: "1 \<le> table_size t" by (simp add: wf_table_def)
  then obtain idx where slot: "get_slot t (entry_key x) = Inr idx"
    and range: "0 \<le> idx" "idx < table_size t"
    using get_slot_range by blast
  have probing: "insert_probing n t step idx x \<noteq> None" for step
    using assms range by (rule insert_probing_total)
  from find_ht_total [OF assms] obtain r where "find_ht n t (entry_key x) = Some r" by blast
  with slot probing show ?thesis
    by (auto simp: insert_ht_def Let_def split: sum.splits collision.splits storage.splits)
qed

lemma insert_ht_error:
  assumes "wf_table t" "insert_ht n t x = Some (Inl e)"
  shows "e = ZeroDivisionError \<and> collision_type t = Double \<and> c2 t = 0"
proof -
  from assms(1) have size: "1 \<le> table_size t" by (simp add: wf_table_def)
  then obtain idx where slot: "get_slot t (entry_key x) = Inr idx"
    and range: "0 \<le> idx" "idx < table_size t"
    using get_slot_range by blast
  show ?thesis
  proof (cases "find_ht n t (entry_key x)")
    case None
    with assms(2) show ?thesis by (simp add: insert_ht_def Let_def)
  next
    case (Some r)
    show ?thesis
    proof (cases r)
      case (Inl e')
      with Some assms(2) have "e' = e" by (simp add: insert_ht_def Let_def)
      with Inl Some assms(1) show ?thesis by (auto dest: find_ht_error)
    next
      case (Inr found)
      from assms(1) show ?thesis
      proof (cases rule: wf_table_cases)
        case (chained buckets)
        with range have "py_index buckets idx = Inr (nat idx)" by (simp add: py_index_in_range)
        with chained Inr Some slot assms(2) show ?thesis
          by (simp add: insert_ht_def Let_def append_bucket_def split: if_splits)
      next
        case (probed cells)
        have no: "insert_probing n t step idx x \<noteq> Some (Inl e)" for step
          using assms(1) range probed(2) by (rule insert_probing_no_error)
        with probed Inr Some slot assms(2) show ?thesis
          by (cases "collision_type t")
             (auto simp: insert_ht_def Let_def split: if_splits sum.splits dest: secondary_step_error)
      qed
    qed
  qed
qed

lemma find_probe_mono:
  "find_probe n cells sz step key nf orig idx = Some r \<Longrightarrow> n \<le> m
     \<Longrightarrow> find_probe m cells sz step key nf orig idx = Some r"
proof (induction n arbitrary: m idx)
  case 0
  then show ?case by simp
next
  case (Suc n)
  from Suc.prems(2) obtain m' where m: "m = Suc m'" "n \<le> m'" by (cases m) auto
  from Suc.prems(1) Suc.IH [of _ m'] m(2) show ?case unfolding m(1)
    by (auto simp: Let_def split: sum.splits option.splits if_splits)
qed

lemma insert_probe_mono:
  "insert_probe n cells sz step orig idx = Some r \<Longrightarrow> n \<le> m
     \<Longrightarrow> insert_probe m cells sz step orig idx = Some r"
proof (induction n arbitrary: m idx)
  case 0
  then show ?case by simp
next
  case (Suc n)
  from Suc.prems(2) obtain m' where m: "m = Suc m'" "n \<le> m'" by (cases m) auto
  from Suc.prems(1) Suc.IH [of _ m'] m(2) show ?case unfolding m(1)
    by (auto simp: Let_def split: sum.splits option.splits if_splits)
qed

lemma find_ht_mono:
  assumes "find_ht n t key = Some r" "n \<le> m"
  shows "find_ht m t key = Some r"
  using assms
  by (auto simp: find_ht_def split: sum.splits collision.splits storage.splits
        intro: find_probe_mono)

lemma insert_probing_mono:
  assumes "insert_probing n t step idx x = Some r" "n \<le> m"
  shows "insert_probing m t step idx x = Some r"
proof (cases "table t")
  case (Chained buckets)
  with assms show ?thesis by (simp add: insert_probing_def)
next
  case (Probed cells)
  with assms(1) obtain p where "insert_probe n cells (table_size t) step idx idx = Some p"
    by (auto simp: insert_probing_def split: option.splits)
  with assms(2) have "insert_probe m cells (table_size t) step idx idx = Some p"
    "insert_probe n cells (table_size t) step idx idx = Some p"
    by (auto intro: insert_probe_mono)
  with Probed assms(1) show ?thesis by (simp add: insert_probing_def)
qed

lemma insert_ht_mono:
  assumes "insert_ht n t x = Some r" "n \<le> m"
  shows "insert_ht m t x = Some r"
proof -
  from assms(1) obtain f where f: "find_ht n t (entry_key x) = Some f"
    by (auto simp: insert_ht_def Let_def split: option.splits)
  from f assms(2) have f': "find_ht m t (entry_key x) = Some f" by (rule find_ht_mono)
  from assms f f' show ?thesis
    by (auto simp: insert_ht_def Let_def split: sum.splits collision.splits storage.splits
          intro: insert_probing_mono)
qed

text \<open>
  Claim C9. On a well-formed table (in particular a Linear or Double table with a vacant
  slot), no probe loop of \<open>find\<close> or \<open>insert\<close> examines more than
  \<open>table_size\<close> slots: with a bound of \<open>table_size\<close> examined slots for each
  probe loop (\<open>insert\<close> runs the loop of \<open>find\<close> and then its own) neither call
  runs out of the bound, and a larger bound gives the same result. The vacant slot is not
  needed for this: a probe sequence is back at its start after \<open>table_size\<close> steps
  at the latest.
\<close>

theorem probes_bounded_by_size:
  assumes "wf_table t"
  shows "(\<exists>r. \<forall>n \<ge> nat (table_size t). find_ht n t key = Some r)
         \<and> (\<exists>r. \<forall>n \<ge> nat (table_size t). insert_ht n t x = Some r)"
proof
  from find_ht_total [OF assms order_refl] obtain r
    where "find_ht (nat (table_size t)) t key = Some r" by blast
  then have "\<forall>n \<ge> nat (table_size t). find_ht n t key = Some r"
    by (blast intro: find_ht_mono)
  then show "\<exists>r. \<forall>n \<ge> nat (table_size t). find_ht n t key = Some r" ..
next
  from insert_ht_total [OF assms order_refl] obtain r
    where "insert_ht (nat (table_size t)) t x = Some r" by blast
  then have "\<forall>n \<ge> nat (table_size t). insert_ht n t x = Some r"
    by (blast intro: insert_ht_mono)
  then show "\<exists>r. \<forall>n \<ge> nat (table_size t). insert_ht n t x = Some r" ..
qed

theorem probes_bounded_by_size_witness:
  "wf_table \<lparr>is_hashmap = False, collision_type = Double, z = 31, z2 = 37, c2 = 17,
             table_size = 3, total_elements = 2,
             table = Probed [Some (Key ''a''), None, Some (Key ''c'')]\<rparr>
   \<and> (\<exists>r. find_ht 3 \<lparr>is_hashmap = False, collision_type = Double, z = 31, z2 = 37, c2 = 17,
             table_size = 3, total_elements = 2,
             table = Probed [Some (Key ''a''), None, Some (Key ''c'')]\<rparr> ''d'' = Some r
          \<and> find_ht 8 \<lparr>is_hashmap = False, collision_type = Double, z = 31, z2 = 37, c2 = 17,
             table_size = 3, total_elements = 2,
             table = Probed [Some (Key ''a''), None, Some (Key ''c'')]\<rparr> ''d'' = Some r)
   \<and> (\<exists>r. insert_ht 3 \<lparr>is_hashmap = False, collision_type = Double, z = 31, z2 = 37, c2 = 17,
             table_size = 3, total_elements = 2,
             table = Probed [Some (Key ''a''), None, Some (Key ''c'')]\<rparr> (Key ''d'') = Some r
          \<and> insert_ht 8 \<lparr>is_hashmap = False, collision_type = Double, z = 31, z2 = 37, c2 = 17,
             table_size = 3, total_elements = 2,
             table = Probed [Some (Key ''a''), None, Some (Key ''c'')]\<rparr> (Key ''d'') = Some r)"
proof -
  let ?t = "\<lparr>is_hashmap = False, collision_type = Double, z = 31, z2 = 37, c2 = 17,
             table_size = 3, total_elements = 2,
             table = Probed [Some (Key ''a''), None, Some (Key ''c'')]\<rparr>"
  have wf: "wf_table ?t" by (simp add: wf_table_def slots_ok_def)
  have size: "nat (table_size ?t) = 3" by simp
  from probes_bounded_by_size [OF wf, of "''d''" "Key ''d''"] obtain r r'
    where "\<forall>n \<ge> 3. find_ht n ?t ''d'' = Some r"
      and "\<forall>n \<ge> 3. insert_ht n ?t (Key ''d'') = Some r'"
    unfolding size by blast
  then have "find_ht 3 ?t ''d'' = Some r \<and> find_ht 8 ?t ''d'' = Some r"
    and "insert_ht 3 ?t (Key ''d'') = Some r' \<and> insert_ht 8 ?t (Key ''d'') = Some r'"
    by simp_all
  with wf show ?thesis by blast
qed

text \<open>
  Claim C10. For a table of size at least 1 and any key, \<open>get_slot\<close> returns an index
  \<open>i\<close> with \<open>0 \<le> i < table_size\<close>; and on a well-formed table (the slot array
  has \<open>table_size\<close> slots) no access to the slot array in \<open>find\<close> or \<open>insert\<close>
  is out of bounds: neither raises \<open>IndexError\<close>.
\<close>

theorem slot_accesses_in_bounds:
  "(1 \<le> table_size t \<longrightarrow> (\<exists>i. get_slot t key = Inr i \<and> 0 \<le> i \<and> i < table_size t))
   \<and> (wf_table t \<longrightarrow> find_ht n t key \<noteq> Some (Inl IndexError)
                      \<and> insert_ht n t x \<noteq> Some (Inl IndexError))"
  using get_slot_range [of t key] find_ht_error [of t n key IndexError]
    insert_ht_error [of t n x IndexError]
  by auto

theorem slot_accesses_in_bounds_witness:
  "1 \<le> table_size \<lparr>is_hashmap = True, collision_type = Linear, z = 31, z2 = 0, c2 = 0,
             table_size = 3, total_elements = 1,
             table = Probed [None, None, Some (KeyVal ''c'' (PInt 5))]\<rparr>
   \<and> wf_table \<lparr>is_hashmap = True, collision_type = Linear, z = 31, z2 = 0, c2 = 0,
             table_size = 3, total_elements = 1,
             table = Probed [None, None, Some (KeyVal ''c'' (PInt 5))]\<rparr>
   \<and> (\<exists>i. get_slot \<lparr>is_hashmap = True, collision_type = Linear, z = 31, z2 = 0, c2 = 0,
             table_size = 3, total_elements = 1,
             table = Probed [None, None, Some (KeyVal ''c'' (PInt 5))]\<rparr> ''x-1 !'' = Inr i
          \<and> 0 \<le> i \<and> i < 3)
   \<and> find_ht 1 \<lparr>is_hashmap = True, collision_type = Linear, z = 31, z2 = 0, c2 = 0,
             table_size = 3, total_elements = 1,
             table = Probed [None, None, Some (KeyVal ''c'' (PInt 5))]\<rparr> ''x-1 !''
        \<noteq> Some (Inl IndexError)
   \<and> insert_ht 1 \<lparr>is_hashmap = True, collision_type = Linear, z = 31, z2 = 0, c2 = 0,
             table_size = 3, total_elements = 1,
             table = Probed [None, None, Some (KeyVal ''c'' (PInt 5))]\<rparr>
          (KeyVal ''x-1 !'' PNone)
        \<noteq> Some (Inl IndexError)"
proof -
  let ?t = "\<lparr>is_hashmap = True, collision_type = Linear, z = 31, z2 = 0, c2 = 0,
             table_size = 3, total_elements = 1,
             table = Probed [None, None, Some (KeyVal ''c'' (PInt 5))]\<rparr>"
  have size: "1 \<le> table_size ?t" by simp
  have wf: "wf_table ?t" by (simp add: wf_table_def slots_ok_def)
  from slot_accesses_in_bounds [of ?t "''x-1 !''" 1 "KeyVal ''x-1 !'' PNone"] size wf
  show ?thesis by simp
qed

section \<open>Tables that can be reached\<close>

text \<open>
  Every reachable table is well-formed and counted, and a reachable Double table that
  holds an entry has \<open>c2 \<noteq> 0\<close>, since the insert that stored the entry computed
  the step.
\<close>

lemma reachable_inv:
  "reachable t \<Longrightarrow>
     wf_table t \<and> counted t \<and> (collision_type t = Double \<and> c2 t = 0 \<longrightarrow> entries t = [])"
proof (induction rule: reachable.induct)
  case (reach_init hm ct params t)
  then show ?case by (simp add: wf_table_def init_table_slots_ok)
next
  case (reach_insert t n x t')
  from reach_insert.IH have ok: "slots_ok t" "counted t" by (simp_all add: wf_table_def)
  from reach_insert.hyps(2) have "collision_type t' = collision_type t" "c2 t' = c2 t"
    by (simp_all add: insert_ht_fields)
  with reach_insert.hyps(2) have "collision_type t' = Double \<Longrightarrow> c2 t' \<noteq> 0"
    by (auto dest: insert_ht_double_c2)
  with reach_insert.hyps(2) ok show ?case
    by (auto simp: insert_ht_wf insert_ht_counted)
qed

lemma all_occupied_entries:
  assumes "wf_table t" "all_occupied t"
  shows "entries t \<noteq> []"
proof -
  from assms(2) obtain cells where cells: "table t = Probed cells" "list_all (\<lambda>slot. slot \<noteq> None) cells"
    by (auto simp: all_occupied_def split: storage.splits)
  with assms(1) have "cells \<noteq> []" by (auto simp: wf_table_def slots_ok_def)
  then obtain c rest where "cells = c # rest" by (cases cells) auto
  with cells(2) obtain item where "Some item \<in> set cells" by (cases c) auto
  with cells(1) show ?thesis by (simp add: entries_def cell_entries_nonempty)
qed

lemma full_table_insert:
  assumes "wf_table t" "all_occupied t" "collision_type t = Double \<longrightarrow> c2 t \<noteq> 0"
    and "nat (table_size t) \<le> n"
  shows "insert_ht n t x = Some (Inr t)"
proof -
  from assms(2) obtain cells where cells: "table t = Probed cells" "list_all (\<lambda>slot. slot \<noteq> None) cells"
    by (auto simp: all_occupied_def split: storage.splits)
  from insert_ht_total [OF assms(1,4)] obtain r where r: "insert_ht n t x = Some r" by blast
  show ?thesis
  proof (cases r)
    case (Inl e)
    with r assms(1,3) show ?thesis by (auto dest: insert_ht_error)
  next
    case (Inr t')
    with r have res: "insert_ht n t x = Some (Inr t')" by simp
    from cells have "\<not> chain_update t t' x" by (simp add: chain_update_def)
    moreover from cells have "\<not> cell_update t t' x"
      by (auto simp: cell_update_def list_all_length)
    ultimately have "t' = t" using insert_ht_cases [OF res] by blast
    with res show ?thesis by simp
  qed
qed

text \<open>
  Claim C5. On a reachable Linear or Double table whose slots are all occupied,
  \<open>insert\<close> returns without raising and leaves the table as it was, the count and
  every slot included. This holds whatever the entry is, so in particular for an entry
  whose key is not present.
\<close>

theorem insert_into_full_table_is_noop:
  assumes "reachable t" and "collision_type t \<noteq> Chain" and "all_occupied t"
    and "nat (table_size t) \<le> n"
  shows "insert_ht n t x = Some (Inr t)"
proof -
  from assms(1) have inv: "wf_table t" "collision_type t = Double \<and> c2 t = 0 \<longrightarrow> entries t = []"
    by (simp_all add: reachable_inv)
  from inv(1) assms(3) have "entries t \<noteq> []" by (rule all_occupied_entries)
  with inv(2) have "collision_type t = Double \<longrightarrow> c2 t \<noteq> 0" by auto
  with inv(1) assms(3) show ?thesis using assms(4) by (rule full_table_insert)
qed

theorem insert_into_full_table_is_noop_witness:
  "reachable \<lparr>is_hashmap = False, collision_type = Double, z = 31, z2 = 37, c2 = 3,
              table_size = 2, total_elements = 2,
              table = Probed [Some (Key ''a''), Some (Key ''b'')]\<rparr>
   \<and> all_occupied \<lparr>is_hashmap = False, collision_type = Double, z = 31, z2 = 37, c2 = 3,
              table_size = 2, total_elements = 2,
              table = Probed [Some (Key ''a''), Some (Key ''b'')]\<rparr>
   \<and> insert_ht 2 \<lparr>is_hashmap = False, collision_type = Double, z = 31, z2 = 37, c2 = 3,
              table_size = 2, total_elements = 2,
              table = Probed [Some (Key ''a''), Some (Key ''b'')]\<rparr> (Key ''c'')
       = Some (Inr \<lparr>is_hashmap = False, collision_type = Double, z = 31, z2 = 37, c2 = 3,
              table_size = 2, total_elements = 2,
              table = Probed [Some (Key ''a''), Some (Key ''b'')]\<rparr>)"
proof -
  let ?t0 = "\<lparr>is_hashmap = False, collision_type = Double, z = 31, z2 = 37, c2 = 3,
              table_size = 2, total_elements = 0, table = Probed [None, None]\<rparr>"
  let ?t1 = "\<lparr>is_hashmap = False, collision_type = Double, z = 31, z2 = 37, c2 = 3,
              table_size = 2, total_elements = 1, table = Probed [Some (Key ''a''), None]\<rparr>"
  let ?t2 = "\<lparr>is_hashmap = False, collision_type = Double, z = 31, z2 = 37, c2 = 3,
              table_size = 2, total_elements = 2,
              table = Probed [Some (Key ''a''), Some (Key ''b'')]\<rparr>"
  have "init_table False Double [31, 37, 3, 2] = Inr ?t0" by code_simp
  then have r0: "reachable ?t0" by (rule reach_init) simp
  have "insert_ht 2 ?t0 (Key ''a'') = Some (Inr ?t1)" by code_simp
  with r0 have r1: "reachable ?t1" by (rule reach_insert)
  have "insert_ht 2 ?t1 (Key ''b'') = Some (Inr ?t2)" by code_simp
  with r1 have r2: "reachable ?t2" by (rule reach_insert)
  have strategy: "collision_type ?t2 \<noteq> Chain" by simp
  have full: "all_occupied ?t2" by (simp add: all_occupied_def)
  have bound: "nat (table_size ?t2) \<le> 2" by simp
  from insert_into_full_table_is_noop [OF r2 strategy full bound, of "Key ''c''"] r2 full
  show ?thesis by simp
qed

section \<open>The growing table keeps its load below one half\<close>

text \<open>
  A dynamic \<open>insert\<close> that returns has either found the load below one half after the
  insert of the base class, or has rebuilt the table. The table holds an entry when the
  rebuild starts, so the rebuild ends with a call of the dynamic \<open>insert\<close> itself,
  for the last collected element.
\<close>

lemma current_elements_entries: "current_elements t = Inr els \<Longrightarrow> els = entries t"
  by (auto simp: current_elements_def entries_def cell_entries_def split: storage.splits if_splits)

lemma reinsert_last:
  "els \<noteq> [] \<Longrightarrow> reinsert ins st els = Some (Inr st')
     \<Longrightarrow> \<exists>st'' element. ins st'' element = Some (Inr st')"
proof (induction els arbitrary: st)
  case Nil
  then show ?case by simp
next
  case (Cons element rest)
  from Cons.prems(2) obtain st1 where first: "ins st element = Some (Inr st1)"
    and rest: "reinsert ins st1 rest = Some (Inr st')"
    by (auto split: option.splits sum.splits)
  show ?case
  proof (cases "rest = []")
    case True
    with first rest show ?thesis by auto
  next
    case False
    from Cons.IH [OF False rest] show ?thesis .
  qed
qed

lemma rehash_map_raises: "rehash_map ins st \<noteq> Some (Inr st')"
  by (simp add: rehash_map_def split: sum.splits prod.splits)

lemma rehash_set_last:
  assumes "entries (tbl st) \<noteq> []" "rehash_set ins st = Some (Inr st')"
  shows "\<exists>st'' element. ins st'' element = Some (Inr st')"
proof -
  from assms(2) obtain els st0 where els: "current_elements (tbl st) = Inr els"
    and re: "reinsert ins st0 els = Some (Inr st')"
    by (auto simp: rehash_set_def split: sum.splits prod.splits)
  from els assms(1) have "els \<noteq> []" by (auto dest: current_elements_entries)
  then show ?thesis using re by (rule reinsert_last)
qed

lemma dyn_insert_body_cases:
  assumes "dyn_insert_body ins n st x = Some (Inr st')"
  obtains (direct) t' load where "insert_ht n (tbl st) x = Some (Inr t')" "get_load t' = Inr load"
      "load < 1 / 2" "st' = st\<lparr>tbl := t'\<rparr>"
  | (rehashed) t' load where "insert_ht n (tbl st) x = Some (Inr t')" "get_load t' = Inr load"
      "1 / 2 \<le> load" "\<not> is_hashmap t'" "rehash_set ins (st\<lparr>tbl := t'\<rparr>) = Some (Inr st')"
proof -
  from assms obtain t' load where ins: "insert_ht n (tbl st) x = Some (Inr t')"
    and load: "get_load t' = Inr load"
    by (auto simp: dyn_insert_body_def split: option.splits sum.splits)
  show thesis
  proof (cases "1 / 2 \<le> load")
    case False
    with ins load assms have "st' = st\<lparr>tbl := t'\<rparr>" by (simp add: dyn_insert_body_def)
    with False ins load show thesis by (intro direct) auto
  next
    case True
    with ins load assms have "\<not> is_hashmap t'"
      and "rehash_set ins (st\<lparr>tbl := t'\<rparr>) = Some (Inr st')"
      by (auto simp: dyn_insert_body_def rehash_map_raises split: if_splits)
    with True ins load show thesis by (intro rehashed) auto
  qed
qed

lemma dyn_insert_body_load:
  assumes step: "\<And>st x st'. ins st x = Some (Inr st') \<Longrightarrow> \<exists>q. get_load (tbl st') = Inr q \<and> q < 1 / 2"
    and "dyn_insert_body ins n st x = Some (Inr st')"
  shows "\<exists>q. get_load (tbl st') = Inr q \<and> q < 1 / 2"
  using assms(2)
proof (cases rule: dyn_insert_body_cases)
  case (direct t' load)
  then show ?thesis by simp
next
  case (rehashed t' load)
  from rehashed(1) have "entries (tbl (st\<lparr>tbl := t'\<rparr>)) \<noteq> []" by (simp add: insert_ht_entries)
  from rehash_set_last [OF this rehashed(5)] step show ?thesis by blast
qed

lemma insert_dyn_load:
  "insert_dyn d n st x = Some (Inr st') \<Longrightarrow> \<exists>q. get_load (tbl st') = Inr q \<and> q < 1 / 2"
proof (induction d arbitrary: st x st')
  case 0
  then have body: "dyn_insert_body (\<lambda>st' x'. None) n st x = Some (Inr st')" by simp
  show ?case
    by (rule dyn_insert_body_load [OF _ body]) simp
next
  case (Suc d)
  then have body: "dyn_insert_body (insert_dyn d n) n st x = Some (Inr st')" by simp
  show ?case
    by (rule dyn_insert_body_load [OF _ body]) (rule Suc.IH)
qed

text \<open>
  Claim C3. Whenever the \<open>insert\<close> of a dynamic table returns, \<open>count / size\<close> is
  below 0.5. A call that runs out of sizes raises \<open>IndexError\<close> and does not return;
  nothing is assumed of the table or of the list of sizes before the call.
\<close>

theorem load_below_half_after_insert:
  assumes "insert_dyn d n st x = Some (Inr st')"
  shows "get_load (tbl st')
           = Inr (of_int (total_elements (tbl st')) / of_int (table_size (tbl st')))
         \<and> (of_int (total_elements (tbl st')) / of_int (table_size (tbl st')) :: rat) < 1 / 2"
proof -
  from insert_dyn_load [OF assms] obtain q where "get_load (tbl st') = Inr q" and "q < 1 / 2"
    by blast
  then show ?thesis by (auto simp: get_load_def split: if_splits)
qed

theorem load_below_half_after_insert_witness:
  "insert_dyn 1 3
      \<lparr>tbl = \<lparr>is_hashmap = False, collision_type = Linear, z = 31, z2 = 0, c2 = 0,
               table_size = 3, total_elements = 1,
               table = Probed [Some (Key ''a''), None, None]\<rparr>,
       prime_sizes = [7]\<rparr> (Key ''b'')
     = Some (Inr \<lparr>tbl = \<lparr>is_hashmap = False, collision_type = Linear, z = 31, z2 = 0, c2 = 0,
                           table_size = 7, total_elements = 2,
                           table = Probed [Some (Key ''a''), Some (Key ''b''), None, None, None,
                                           None, None]\<rparr>,
                   prime_sizes = []\<rparr>)
   \<and> get_load \<lparr>is_hashmap = False, collision_type = Linear, z = 31, z2 = 0, c2 = 0,
                table_size = 7, total_elements = 2,
                table = Probed [Some (Key ''a''), Some (Key ''b''), None, None, None,
                                None, None]\<rparr> = Inr (2 / 7)
   \<and> (2 / 7 :: rat) < 1 / 2"
proof -
  let ?st = "\<lparr>tbl = \<lparr>is_hashmap = False, collision_type = Linear, z = 31, z2 = 0, c2 = 0,
               table_size = 3, total_elements = 1,
               table = Probed [Some (Key ''a''), None, None]\<rparr>,
       prime_sizes = [7]\<rparr>"
  let ?t' = "\<lparr>is_hashmap = False, collision_type = Linear, z = 31, z2 = 0, c2 = 0,
                table_size = 7, total_elements = 2,
                table = Probed [Some (Key ''a''), Some (Key ''b''), None, None, None,
                                None, None]\<rparr>"
  have run: "insert_dyn 1 3 ?st (Key ''b'') = Some (Inr \<lparr>tbl = ?t', prime_sizes = []\<rparr>)"
    by code_simp
  from load_below_half_after_insert [OF run] run show ?thesis by simp
qed

section \<open>The load factor\<close>

text \<open>
  The dynamic \<open>insert\<close> keeps the slot array well-formed and the count exact, through
  any rebuild: the table built by \<open>__init__\<close> is empty and counted, and a size that
  is not positive makes the first reinsertion raise.
\<close>

lemma wf_table_slots_ok: "wf_table t \<Longrightarrow> slots_ok t"
  by (simp add: wf_table_def)

lemma reinsert_keep:
  assumes step: "\<And>st x st'. slots_ok (tbl st) \<Longrightarrow> counted (tbl st) \<Longrightarrow> ins st x = Some (Inr st')
                   \<Longrightarrow> wf_table (tbl st') \<and> counted (tbl st')"
  shows "slots_ok (tbl st) \<Longrightarrow> counted (tbl st) \<Longrightarrow> els \<noteq> []
           \<Longrightarrow> reinsert ins st els = Some (Inr st')
           \<Longrightarrow> wf_table (tbl st') \<and> counted (tbl st')"
proof (induction els arbitrary: st)
  case Nil
  then show ?case by simp
next
  case (Cons element rest)
  from Cons.prems(4) obtain st1 where first: "ins st element = Some (Inr st1)"
    and rest: "reinsert ins st1 rest = Some (Inr st')"
    by (auto split: option.splits sum.splits)
  from step [OF Cons.prems(1,2) first] have inv1: "wf_table (tbl st1)" "counted (tbl st1)"
    by simp_all
  show ?case
  proof (cases "rest = []")
    case True
    with rest inv1 show ?thesis by simp
  next
    case False
    from inv1 have "slots_ok (tbl st1)" by (simp add: wf_table_slots_ok)
    from Cons.IH [OF this inv1(2) False rest] show ?thesis .
  qed
qed

lemma dyn_insert_body_inv:
  assumes step: "\<And>st x st'. slots_ok (tbl st) \<Longrightarrow> counted (tbl st) \<Longrightarrow> ins st x = Some (Inr st')
                   \<Longrightarrow> wf_table (tbl st') \<and> counted (tbl st')"
    and ok: "slots_ok (tbl st)" "counted (tbl st)"
    and body: "dyn_insert_body ins n st x = Some (Inr st')"
  shows "wf_table (tbl st') \<and> counted (tbl st')"
  using body
proof (cases rule: dyn_insert_body_cases)
  case (direct t' load)
  with ok show ?thesis by (simp add: insert_ht_wf insert_ht_counted)
next
  case (rehashed t' load)
  from rehashed(5) obtain els t0 ps where els: "current_elements t' = Inr els"
    and init: "init_table (is_hashmap t') (collision_type t') [z t', ps] = Inr t0"
    and re: "\<exists>ps'. reinsert ins \<lparr>tbl = t0, prime_sizes = ps'\<rparr> els = Some (Inr st')"
    by (auto simp: rehash_set_def split: sum.splits prod.splits)
  from re obtain ps' where re': "reinsert ins \<lparr>tbl = t0, prime_sizes = ps'\<rparr> els = Some (Inr st')"
    by blast
  from rehashed(1) have "entries t' \<noteq> []" by (rule insert_ht_entries)
  with els have ne: "els \<noteq> []" by (auto dest: current_elements_entries)
  from init have "slots_ok (tbl \<lparr>tbl = t0, prime_sizes = ps'\<rparr>)" "counted (tbl \<lparr>tbl = t0, prime_sizes = ps'\<rparr>)"
    by (simp_all add: init_table_slots_ok)
  from reinsert_keep [of ins, OF step this ne re'] show ?thesis by simp
qed

lemma insert_dyn_inv:
  "slots_ok (tbl st) \<Longrightarrow> counted (tbl st) \<Longrightarrow> insert_dyn d n st x = Some (Inr st')
     \<Longrightarrow> wf_table (tbl st') \<and> counted (tbl st')"
proof (induction d arbitrary: st x st')
  case 0
  then have body: "dyn_insert_body (\<lambda>st' x'. None) n st x = Some (Inr st')" by simp
  show ?case
    by (rule dyn_insert_body_inv [OF _ "0.prems"(1,2) body]) simp
next
  case (Suc d)
  then have body: "dyn_insert_body (insert_dyn d n) n st x = Some (Inr st')" by simp
  show ?case
    by (rule dyn_insert_body_inv [OF _ Suc.prems(1,2) body]) (rule Suc.IH)
qed

lemma dyn_reachable_inv:
  "dyn_reachable st \<Longrightarrow>
     wf_table (tbl st) \<and> counted (tbl st) \<and> (\<exists>q. get_load (tbl st) = Inr q \<and> q < 1 / 2)"
proof (induction rule: dyn_reachable.induct)
  case (dyn_init hm ct params t ps)
  then have "total_elements t = 0" by (simp add: init_table_fields)
  with dyn_init show ?case by (simp add: wf_table_def init_table_slots_ok get_load_def)
next
  case (dyn_set_primes st ps)
  then show ?case by simp
next
  case (dyn_insert st d n x st')
  then have ok: "slots_ok (tbl st)" "counted (tbl st)" by (simp_all add: wf_table_def)
  from insert_dyn_inv [OF ok dyn_insert.hyps(2)] insert_dyn_load [OF dyn_insert.hyps(2)]
  show ?case by simp
qed

lemma load_bounds:
  assumes "wf_table t" "counted t"
  shows "get_load t = Inr (of_int (total_elements t) / of_int (table_size t))
         \<and> (0::rat) \<le> of_int (total_elements t) / of_int (table_size t)
         \<and> (collision_type t \<noteq> Chain \<longrightarrow> of_int (total_elements t) / of_int (table_size t) \<le> (1::rat))"
proof -
  from assms(1) have size: "1 \<le> table_size t" by (simp add: wf_table_def)
  from assms(2) have count: "0 \<le> total_elements t" by (simp add: counted_def)
  have "collision_type t \<noteq> Chain \<Longrightarrow> total_elements t \<le> table_size t"
    using assms(1)
  proof (cases rule: wf_table_cases)
    case (chained buckets)
    assume "collision_type t \<noteq> Chain"
    with chained show ?thesis by simp
  next
    case (probed cells)
    have "length (cell_entries cells) \<le> length cells" by (rule length_cell_entries_le)
    with probed assms(2) show ?thesis by (simp add: counted_def entries_def)
  qed
  with size count show ?thesis
    by (simp add: get_load_def)
qed


text \<open>
  Claim C8, as stated, fails: a static table of the Chain strategy holds any number of
  entries in a slot, so its load exceeds 1. Two keys in a table of one slot give the
  load 2.
\<close>

theorem chain_load_exceeds_one:
  "reachable \<lparr>is_hashmap = False, collision_type = Chain, z = 31, z2 = 0, c2 = 0,
              table_size = 1, total_elements = 2, table = Chained [[Key ''a'', Key ''b'']]\<rparr>
   \<and> get_load \<lparr>is_hashmap = False, collision_type = Chain, z = 31, z2 = 0, c2 = 0,
              table_size = 1, total_elements = 2, table = Chained [[Key ''a'', Key ''b'']]\<rparr>
       = Inr 2
   \<and> \<not> (2 :: rat) \<le> 1"
proof -
  let ?t0 = "\<lparr>is_hashmap = False, collision_type = Chain, z = 31, z2 = 0, c2 = 0,
              table_size = 1, total_elements = 0, table = Chained [[]]\<rparr>"
  let ?t1 = "\<lparr>is_hashmap = False, collision_type = Chain, z = 31, z2 = 0, c2 = 0,
              table_size = 1, total_elements = 1, table = Chained [[Key ''a'']]\<rparr>"
  let ?t2 = "\<lparr>is_hashmap = False, collision_type = Chain, z = 31, z2 = 0, c2 = 0,
              table_size = 1, total_elements = 2, table = Chained [[Key ''a'', Key ''b'']]\<rparr>"
  have "init_table False Chain [31, 1] = Inr ?t0" by code_simp
  then have r0: "reachable ?t0" by (rule reach_init) simp
  have "insert_ht 1 ?t0 (Key ''a'') = Some (Inr ?t1)" by code_simp
  with r0 have r1: "reachable ?t1" by (rule reach_insert)
  have "insert_ht 1 ?t1 (Key ''b'') = Some (Inr ?t2)" by code_simp
  with r1 have r2: "reachable ?t2" by (rule reach_insert)
  have "get_load ?t2 = Inr 2" by (simp add: get_load_def)
  with r2 show ?thesis by simp
qed

text \<open>
  Claim C8, amended. For every table reached from a constructor call with a positive
  size, \<open>get_load\<close> returns exactly \<open>count / size\<close>, and this ratio is at least 0;
  it is at most 1 when the strategy is Linear or Double, and for every table of the
  dynamic classes, whatever its strategy. \<open>get_load\<close> maps a table to a number and
  returns no table, so it changes nothing.
\<close>

theorem get_load_is_ratio_within_bounds:
  "(reachable t \<longrightarrow>
      get_load t = Inr (of_int (total_elements t) / of_int (table_size t))
      \<and> (0 :: rat) \<le> of_int (total_elements t) / of_int (table_size t)
      \<and> (collision_type t \<noteq> Chain \<longrightarrow>
           of_int (total_elements t) / of_int (table_size t) \<le> (1 :: rat)))
   \<and> (dyn_reachable st \<longrightarrow>
      get_load (tbl st) = Inr (of_int (total_elements (tbl st)) / of_int (table_size (tbl st)))
      \<and> (0 :: rat) \<le> of_int (total_elements (tbl st)) / of_int (table_size (tbl st))
      \<and> of_int (total_elements (tbl st)) / of_int (table_size (tbl st)) \<le> (1 :: rat))"
proof (intro conjI impI)
  assume "reachable t"
  then have inv: "wf_table t" "counted t" by (simp_all add: reachable_inv)
  from load_bounds [OF inv]
  show "get_load t = Inr (of_int (total_elements t) / of_int (table_size t))"
    and "(0 :: rat) \<le> of_int (total_elements t) / of_int (table_size t)"
    by simp_all
  assume "collision_type t \<noteq> Chain"
  with load_bounds [OF inv]
  show "of_int (total_elements t) / of_int (table_size t) \<le> (1 :: rat)" by simp
next
  assume dyn: "dyn_reachable st"
  from dyn_reachable_inv [OF dyn]
  have inv: "wf_table (tbl st)" "counted (tbl st)"
    and half: "\<exists>q. get_load (tbl st) = Inr q \<and> q < 1 / 2"
    by blast+
  from load_bounds [OF inv]
  show ratio: "get_load (tbl st)
      = Inr (of_int (total_elements (tbl st)) / of_int (table_size (tbl st)))"
    and "(0 :: rat) \<le> of_int (total_elements (tbl st)) / of_int (table_size (tbl st))"
    by simp_all
  from half ratio
  have "(of_int (total_elements (tbl st)) / of_int (table_size (tbl st)) :: rat) < 1 / 2"
    by fastforce
  then show "of_int (total_elements (tbl st)) / of_int (table_size (tbl st)) \<le> (1 :: rat)"
    by linarith
qed

theorem get_load_is_ratio_within_bounds_witness:
  "reachable \<lparr>is_hashmap = False, collision_type = Linear, z = 31, z2 = 0, c2 = 0,
              table_size = 3, total_elements = 1,
              table = Probed [Some (Key ''a''), None, None]\<rparr>
   \<and> dyn_reachable
       \<lparr>tbl = \<lparr>is_hashmap = False, collision_type = Chain, z = 31, z2 = 0, c2 = 0,
                table_size = 5, total_elements = 1,
                table = Chained [[Key ''a''], [], [], [], []]\<rparr>,
        prime_sizes = []\<rparr>
   \<and> get_load \<lparr>is_hashmap = False, collision_type = Linear, z = 31, z2 = 0, c2 = 0,
              table_size = 3, total_elements = 1,
              table = Probed [Some (Key ''a''), None, None]\<rparr> = Inr (1 / 3)
   \<and> get_load \<lparr>is_hashmap = False, collision_type = Chain, z = 31, z2 = 0, c2 = 0,
                table_size = 5, total_elements = 1,
                table = Chained [[Key ''a''], [], [], [], []]\<rparr> = Inr (1 / 5)
   \<and> (0 :: rat) \<le> 1 / 3 \<and> (1 / 3 :: rat) \<le> 1 \<and> (0 :: rat) \<le> 1 / 5 \<and> (1 / 5 :: rat) \<le> 1"
proof -
  let ?t0 = "\<lparr>is_hashmap = False, collision_type = Linear, z = 31, z2 = 0, c2 = 0,
              table_size = 3, total_elements = 0, table = Probed [None, None, None]\<rparr>"
  let ?t1 = "\<lparr>is_hashmap = False, collision_type = Linear, z = 31, z2 = 0, c2 = 0,
              table_size = 3, total_elements = 1,
              table = Probed [Some (Key ''a''), None, None]\<rparr>"
  let ?d0 = "\<lparr>is_hashmap = False, collision_type = Chain, z = 31, z2 = 0, c2 = 0,
              table_size = 2, total_elements = 0, table = Chained [[], []]\<rparr>"
  let ?d1 = "\<lparr>is_hashmap = False, collision_type = Chain, z = 31, z2 = 0, c2 = 0,
              table_size = 5, total_elements = 1,
              table = Chained [[Key ''a''], [], [], [], []]\<rparr>"
  have "init_table False Linear [31, 3] = Inr ?t0" by code_simp
  then have r0: "reachable ?t0" by (rule reach_init) simp
  have "insert_ht 3 ?t0 (Key ''a'') = Some (Inr ?t1)" by code_simp
  with r0 have r1: "reachable ?t1" by (rule reach_insert)
  have "init_table False Chain [31, 2] = Inr ?d0" by code_simp
  then have s0: "dyn_reachable \<lparr>tbl = ?d0, prime_sizes = [5]\<rparr>" by (rule dyn_init) simp
  have "insert_dyn 1 2 \<lparr>tbl = ?d0, prime_sizes = [5]\<rparr> (Key ''a'')
          = Some (Inr \<lparr>tbl = ?d1, prime_sizes = []\<rparr>)" by code_simp
  with s0 have s1: "dyn_reachable \<lparr>tbl = ?d1, prime_sizes = []\<rparr>" by (rule dyn_insert)
  from get_load_is_ratio_within_bounds [of ?t1 "\<lparr>tbl = ?d1, prime_sizes = []\<rparr>"] r1 s1
  show ?thesis by simp
qed

section \<open>Bounds that suffice for the dynamic insert\<close>

text \<open>
  The bounds of \<open>insert_dyn\<close> do not hide a call that returns: with a probe bound of
  at least the current size and every size in the list, and a depth bound of at least the
  number of sizes in the list, the result is never \<open>None\<close>.
\<close>

lemma find_ht_empty:
  assumes "slots_ok t" "table_size t \<le> 0" "1 \<le> n"
  shows "\<exists>e. find_ht n t key = Some (Inl e)"
proof (cases "table_size t = 0")
  case True
  then show ?thesis by (simp add: find_ht_def get_slot_def)
next
  case False
  then obtain idx where slot: "get_slot t key = Inr idx" by (simp add: get_slot_def)
  from assms(3) obtain m where n: "n = Suc m" by (cases n) auto
  from assms(2) have zero: "nat (table_size t) = 0" by simp
  show ?thesis
  proof (cases "table t")
    case (Chained buckets)
    with assms(1) zero have "buckets = []" "collision_type t = Chain"
      by (simp_all add: slots_ok_def)
    with Chained slot show ?thesis
      by (simp add: find_ht_def py_get_def py_index_def)
  next
    case (Probed cells)
    with assms(1) zero have "cells = []" "collision_type t \<noteq> Chain"
      by (simp_all add: slots_ok_def)
    with Probed slot n show ?thesis
      by (cases "collision_type t")
         (auto simp: find_ht_def py_get_def py_index_def split: sum.splits)
  qed
qed

lemma insert_ht_total_slots:
  assumes "slots_ok t" "nat (table_size t) \<le> n" "1 \<le> n"
  shows "insert_ht n t x \<noteq> None"
proof (cases "1 \<le> table_size t")
  case True
  with assms(1) have "wf_table t" by (simp add: wf_table_def)
  then show ?thesis using assms(2) by (rule insert_ht_total)
next
  case False
  then have "table_size t \<le> 0" by simp
  from find_ht_empty [OF assms(1) this assms(3)] obtain e
    where "find_ht n t (entry_key x) = Some (Inl e)" by blast
  then show ?thesis by (simp add: insert_ht_def Let_def)
qed

lemma sizes_from_refl: "sizes_from st st"
  by (simp add: sizes_from_def)

lemma sizes_from_trans: "sizes_from st st1 \<Longrightarrow> sizes_from st1 st2 \<Longrightarrow> sizes_from st st2"
  by (auto simp: sizes_from_def)

lemma reinsert_sizes:
  assumes step: "\<And>st x st'. ins st x = Some (Inr st') \<Longrightarrow> sizes_from st st'"
  shows "reinsert ins st els = Some (Inr st') \<Longrightarrow> sizes_from st st'"
proof (induction els arbitrary: st)
  case Nil
  then show ?case by (simp add: sizes_from_refl)
next
  case (Cons element rest)
  from Cons.prems obtain st1 where first: "ins st element = Some (Inr st1)"
    and rest: "reinsert ins st1 rest = Some (Inr st')"
    by (auto split: option.splits sum.splits)
  from step [OF first] Cons.IH [OF rest] show ?case by (rule sizes_from_trans)
qed

lemma init_table_size:
  "init_table hm ct [zz, sz] = Inr t \<Longrightarrow> table_size t = sz"
  by (auto simp: init_table_def split: if_splits)

lemma rehash_set_sizes:
  assumes step: "\<And>st x st'. ins st x = Some (Inr st') \<Longrightarrow> sizes_from st st'"
    and "rehash_set ins st = Some (Inr st')"
  shows "sizes_from st st'"
proof -
  from assms(2) obtain els t0 where ne: "prime_sizes st \<noteq> []"
    and init: "init_table (is_hashmap (tbl st)) (collision_type (tbl st))
                 [z (tbl st), last (prime_sizes st)] = Inr t0"
    and re: "reinsert ins \<lparr>tbl = t0, prime_sizes = butlast (prime_sizes st)\<rparr> els = Some (Inr st')"
    by (auto simp: rehash_set_def get_next_size_def split: sum.splits prod.splits if_splits)
  from init have "table_size t0 = last (prime_sizes st)" by (rule init_table_size)
  with ne have "sizes_from st \<lparr>tbl = t0, prime_sizes = butlast (prime_sizes st)\<rparr>"
    by (auto simp: sizes_from_def dest: in_set_butlastD)
  moreover from step re have "sizes_from \<lparr>tbl = t0, prime_sizes = butlast (prime_sizes st)\<rparr> st'"
    by (rule reinsert_sizes)
  ultimately show ?thesis by (rule sizes_from_trans)
qed

lemma dyn_insert_body_sizes:
  assumes step: "\<And>st x st'. ins st x = Some (Inr st') \<Longrightarrow> sizes_from st st'"
    and body: "dyn_insert_body ins n st x = Some (Inr st')"
  shows "sizes_from st st'"
  using body
proof (cases rule: dyn_insert_body_cases)
  case (direct t' load)
  then show ?thesis by (simp add: sizes_from_def insert_ht_fields)
next
  case (rehashed t' load)
  from rehashed(1) have "sizes_from st (st\<lparr>tbl := t'\<rparr>)"
    by (simp add: sizes_from_def insert_ht_fields)
  moreover from step rehashed(5) have "sizes_from (st\<lparr>tbl := t'\<rparr>) st'"
    by (rule rehash_set_sizes)
  ultimately show ?thesis by (rule sizes_from_trans)
qed

lemma insert_dyn_sizes:
  "insert_dyn d n st x = Some (Inr st') \<Longrightarrow> sizes_from st st'"
proof (induction d arbitrary: st x st')
  case 0
  then have body: "dyn_insert_body (\<lambda>st' x'. None) n st x = Some (Inr st')" by simp
  show ?case
    by (rule dyn_insert_body_sizes [OF _ body]) simp
next
  case (Suc d)
  then have body: "dyn_insert_body (insert_dyn d n) n st x = Some (Inr st')" by simp
  show ?case
    by (rule dyn_insert_body_sizes [OF _ body]) (rule Suc.IH)
qed

lemma within_bounds_step:
  assumes "within_bounds d n st" "sizes_from st st'" "slots_ok (tbl st')" "counted (tbl st')"
  shows "within_bounds d n st'"
  using assms by (auto simp: within_bounds_def sizes_from_def list_all_iff)

lemma reinsert_total:
  assumes total: "\<And>st x. I st \<Longrightarrow> ins st x \<noteq> None"
    and keep: "\<And>st x st'. I st \<Longrightarrow> ins st x = Some (Inr st') \<Longrightarrow> I st'"
  shows "I st \<Longrightarrow> reinsert ins st els \<noteq> None"
proof (induction els arbitrary: st)
  case Nil
  then show ?case by simp
next
  case (Cons element rest)
  from total [OF Cons.prems] obtain r where r: "ins st element = Some r" by blast
  show ?case
  proof (cases r)
    case (Inl e)
    with r show ?thesis by simp
  next
    case (Inr st1)
    with r keep [OF Cons.prems] have "I st1" by simp
    then have "reinsert ins st1 rest \<noteq> None" by (rule Cons.IH)
    with r Inr show ?thesis by simp
  qed
qed

lemma insert_dyn_keeps_bounds:
  assumes "within_bounds d n st" "insert_dyn d' n st x = Some (Inr st')"
  shows "within_bounds d n st'"
proof -
  from assms(1) have ok: "slots_ok (tbl st)" "counted (tbl st)" by (simp_all add: within_bounds_def)
  from insert_dyn_inv [OF ok assms(2)] have "slots_ok (tbl st')" "counted (tbl st')"
    by (simp_all add: wf_table_def)
  with assms(1) insert_dyn_sizes [OF assms(2)] show ?thesis by (rule within_bounds_step)
qed

lemma insert_dyn_total:
  "within_bounds d n st \<Longrightarrow> insert_dyn d n st x \<noteq> None"
proof (induction d arbitrary: st x)
  case 0
  then have ok: "slots_ok (tbl st)" "nat (table_size (tbl st)) \<le> n" "1 \<le> n"
    and empty: "prime_sizes st = []"
    by (auto simp: within_bounds_def)
  from insert_ht_total_slots [OF ok] obtain r where "insert_ht n (tbl st) x = Some r" by blast
  with empty show ?case
    by (auto simp: dyn_insert_body_def rehash_set_def rehash_map_def get_next_size_def
          split: sum.splits)
next
  case (Suc d)
  then have ok: "slots_ok (tbl st)" "nat (table_size (tbl st)) \<le> n" "1 \<le> n"
    by (auto simp: within_bounds_def)
  from insert_ht_total_slots [OF ok] obtain r where r: "insert_ht n (tbl st) x = Some r" by blast
  have re: "reinsert (insert_dyn d n) \<lparr>tbl = t0, prime_sizes = butlast (prime_sizes st)\<rparr> els \<noteq> None"
    if "prime_sizes st \<noteq> []"
      and "init_table hm ct [zz, last (prime_sizes st)] = Inr t0" for hm ct zz t0 els
  proof (rule reinsert_total [where I = "within_bounds d n"])
    show "insert_dyn d n st x \<noteq> None" if "within_bounds d n st" for st x
      using that by (rule Suc.IH)
    show "within_bounds d n st'"
      if "within_bounds d n st" "insert_dyn d n st x = Some (Inr st')" for st x st'
      using that by (rule insert_dyn_keeps_bounds)
    from that(2) have "slots_ok t0" "counted t0" "table_size t0 = last (prime_sizes st)"
      by (simp_all add: init_table_slots_ok init_table_size)
    with that(1) Suc.prems
    show "within_bounds d n \<lparr>tbl = t0, prime_sizes = butlast (prime_sizes st)\<rparr>"
      by (auto simp: within_bounds_def list_all_iff dest: in_set_butlastD)
  qed
  show ?case
  proof (cases r)
    case (Inl e)
    with r show ?thesis by (simp add: dyn_insert_body_def)
  next
    case (Inr t')
    with r re show ?thesis
      by (auto simp: dyn_insert_body_def rehash_set_def rehash_map_def get_next_size_def
            split: sum.splits)
  qed
qed

section \<open>Round trip when nothing stored is false\<close>

text \<open>
  When no stored item and no stored value is false, and the new item is not a bare empty
  key, a call of \<open>insert\<close> that stores its entry is followed by a \<open>find\<close> that
  returns the value of that entry (\<open>True\<close> for a bare key): the probe of \<open>find\<close>
  walks the cells the probe of \<open>insert\<close> walked, none of which holds the key.
\<close>

lemma matches_entry_key: "matches x (entry_key x)"
  by (cases x) simp_all

lemma find_chain_append:
  assumes "list_all (\<lambda>item. truthy (item_result item)) bucket" "\<not> truthy nf"
    and "\<not> truthy (find_chain bucket key nf)" "matches x key"
  shows "find_chain (bucket @ [x]) key nf = item_result x"
  using assms by (induction bucket) (auto split: if_splits)

lemma find_probe_after_store:
  assumes "int (length cells) = sz" "1 \<le> sz"
    and "list_all (\<lambda>item. item_truthy item \<and> truthy (item_result item)) (cell_entries cells)"
    and "item_truthy x" "matches x key" "\<not> truthy nf"
  shows "0 \<le> idx \<Longrightarrow> idx < sz
     \<Longrightarrow> insert_probe n cells sz step orig idx = Some (Inr (Some p))
     \<Longrightarrow> find_probe n cells sz step key nf orig idx = Some (Inr r) \<Longrightarrow> \<not> truthy r
     \<Longrightarrow> find_probe n (cells[nat p := Some x]) sz step key nf orig idx
           = Some (Inr (item_result x))"
proof (induction n arbitrary: idx)
  case 0
  then show ?case by simp
next
  case (Suc n)
  let ?idx' = "(idx + step) mod sz"
  from assms(2) have range': "0 \<le> ?idx'" "?idx' < sz" by simp_all
  from Suc.prems(1,2) assms(1) have get: "py_get cells idx = Inr (cells ! nat idx)"
    by (simp add: py_get_in_range)
  from Suc.prems(1,2) assms(1)
  have get': "py_get (cells[nat p := Some x]) idx = Inr (cells[nat p := Some x] ! nat idx)"
    by (simp add: py_get_in_range)
  show ?case
  proof (cases "cells ! nat idx")
    case None
    with get Suc.prems(3) have "p = idx" by simp
    with Suc.prems(1,2) assms(1) have "cells[nat p := Some x] ! nat idx = Some x" by simp
    with get' assms(4,5) show ?thesis by simp
  next
    case (Some item)
    from Suc.prems(1,2) assms(1) Some have "Some item \<in> set cells"
      by (metis nat_less_iff nth_mem of_nat_less_iff)
    then have "item \<in> set (cell_entries cells)"
      by (auto simp: cell_entries_def intro!: bexI [of _ "Some item"])
    with assms(3) have item: "item_truthy item" "truthy (item_result item)"
      by (auto simp: list_all_iff)
    from Some get Suc.prems(3) have ins: "?idx' \<noteq> orig"
      "insert_probe n cells sz step orig ?idx' = Some (Inr (Some p))"
      by (auto simp: Let_def split: if_splits)
    from Some get item Suc.prems(4,5) have nomatch: "\<not> matches item key"
      by (auto simp: Let_def split: if_splits)
    with Some get item Suc.prems(4) ins(1)
    have fnd: "find_probe n cells sz step key nf orig ?idx' = Some (Inr r)"
      by (auto simp: Let_def split: if_splits)
    from Suc.prems(3) have "py_get cells p = Inr None" by (rule insert_probe_vacant)
    moreover from insert_probe_result [OF assms(2,1) Suc.prems(1,2,3)]
    have "0 \<le> p" "p < sz" by auto
    ultimately have "cells ! nat p = None" using assms(1) by (simp add: py_get_in_range)
    with Some have "nat p \<noteq> nat idx" by auto
    then have same: "cells[nat p := Some x] ! nat idx = Some item" using Some by simp
    from Suc.IH [OF range' ins(2) fnd Suc.prems(5)] same get' item nomatch ins(1)
    show ?thesis by (auto simp: Let_def)
  qed
qed

lemma get_slot_update [simp]:
  "get_slot (t\<lparr>table := s, total_elements := c\<rparr>) key = get_slot t key"
  by (simp add: get_slot_def)

lemma secondary_step_update [simp]:
  "secondary_step (t\<lparr>table := s, total_elements := c\<rparr>) key = secondary_step t key"
  by (simp add: secondary_step_def)

lemma miss_update [simp]: "miss (t\<lparr>table := s, total_elements := c\<rparr>) = miss t"
  by (simp add: miss_def)

lemma insert_then_find_probing:
  assumes wf: "wf_table t" and cells: "table t = Probed cells"
    and truthy: "all_truthy t" "item_truthy x"
    and slot: "get_slot t (entry_key x) = Inr idx"
    and found: "find_probe n cells (table_size t) step (entry_key x) (miss t) idx idx = Some (Inr r)"
      "\<not> truthy r"
    and ins: "insert_probing n t step idx x = Some (Inr t')"
      "total_elements t' = total_elements t + 1"
  shows "\<exists>cells'. t' = t\<lparr>table := Probed cells', total_elements := total_elements t + 1\<rparr>
           \<and> find_probe n cells' (table_size t) step (entry_key x) (miss t) idx idx
               = Some (Inr (item_result x))"
proof -
  from wf cells have len: "int (length cells) = table_size t" and size: "1 \<le> table_size t"
    by (auto simp: wf_table_def slots_ok_def)
  from size slot have range: "0 \<le> idx" "idx < table_size t"
    using get_slot_range [of t "entry_key x"] by auto
  from truthy(1) cells
  have all: "list_all (\<lambda>item. item_truthy item \<and> truthy (item_result item)) (cell_entries cells)"
    by (simp add: all_truthy_def entries_def)
  from ins cells obtain p where probe: "insert_probe n cells (table_size t) step idx idx = Some (Inr (Some p))"
    and store: "store_cell t cells p x = Inr t'"
    by (auto simp: insert_probing_def split: option.splits sum.splits)
  from insert_probe_result [OF size len range probe] have p: "0 \<le> p" "p < table_size t" by auto
  with len store have t': "t' = t\<lparr>table := Probed (cells[nat p := Some x]),
      total_elements := total_elements t + 1\<rparr>"
    by (simp add: store_cell_def py_index_in_range)
  have "find_probe n (cells[nat p := Some x]) (table_size t) step (entry_key x) (miss t) idx idx
          = Some (Inr (item_result x))"
    using len size all truthy(2) matches_entry_key miss_falsy range probe found
    by (rule find_probe_after_store)
  with t' show ?thesis by blast
qed

lemma insert_then_find:
  assumes wf: "wf_table t" and truthy: "all_truthy t" "item_truthy x"
    and ins: "insert_ht n t x = Some (Inr t')"
    and count: "total_elements t' = total_elements t + 1"
  shows "find_ht n t' (entry_key x) = Some (Inr (item_result x))"
proof -
  let ?key = "entry_key x"
  from ins obtain found where found: "find_ht n t ?key = Some (Inr found)"
    by (auto simp: insert_ht_def Let_def split: option.splits sum.splits)
  from ins found count have falsy: "\<not> truthy found"
    by (auto simp: insert_ht_def Let_def)
  from wf have size: "1 \<le> table_size t" by (simp add: wf_table_def)
  then obtain idx where slot: "get_slot t ?key = Inr idx" and range: "0 \<le> idx" "idx < table_size t"
    using get_slot_range by blast
  from wf show ?thesis
  proof (cases rule: wf_table_cases)
    case (chained buckets)
    let ?bucket = "buckets ! nat idx"
    from chained range have get: "py_get buckets idx = Inr ?bucket"
      and index: "py_index buckets idx = Inr (nat idx)"
      by (simp_all add: py_get_in_range py_index_in_range)
    from chained slot get found have res: "found = find_chain ?bucket ?key (miss t)"
      by (simp add: find_ht_def)
    from chained range have "?bucket \<in> set buckets" by simp
    with truthy(1) chained have all: "list_all (\<lambda>item. truthy (item_result item)) ?bucket"
      by (auto simp: all_truthy_def entries_def list_all_iff)
    from chained slot found falsy ins index
    have t': "t' = t\<lparr>table := Chained (buckets[nat idx := ?bucket @ [x]]),
        total_elements := total_elements t + 1\<rparr>"
      by (simp add: insert_ht_def Let_def append_bucket_def)
    from chained range
    have "py_get (buckets[nat idx := ?bucket @ [x]]) idx = Inr (?bucket @ [x])"
      by (simp add: py_get_in_range)
    moreover from all miss_falsy falsy matches_entry_key
    have "find_chain (?bucket @ [x]) ?key (miss t) = item_result x"
      unfolding res by (rule find_chain_append)
    ultimately show ?thesis using chained slot unfolding t'
      by (simp add: find_ht_def)
  next
    case (probed cells)
    show ?thesis
    proof (cases "collision_type t")
      case Chain
      with probed show ?thesis by simp
    next
      case Linear
      with probed slot found have f: "find_probe n cells (table_size t) 1 ?key (miss t) idx idx = Some (Inr found)"
        by (simp add: find_ht_def)
      from Linear slot found falsy ins have i: "insert_probing n t 1 idx x = Some (Inr t')"
        by (simp add: insert_ht_def Let_def)
      from insert_then_find_probing [OF wf probed(1) truthy slot f falsy i count]
      show ?thesis using Linear slot by (auto simp: find_ht_def)
    next
      case Double
      with found obtain step where step: "secondary_step t ?key = Inr step"
        by (auto simp: find_ht_def slot split: sum.splits)
      with Double probed slot found have f: "find_probe n cells (table_size t) step ?key (miss t) idx idx = Some (Inr found)"
        by (simp add: find_ht_def)
      from Double slot step found falsy ins have i: "insert_probing n t step idx x = Some (Inr t')"
        by (simp add: insert_ht_def Let_def)
      from insert_then_find_probing [OF wf probed(1) truthy slot f falsy i count]
      show ?thesis using Double slot step by (auto simp: find_ht_def)
    qed
  qed
qed

section \<open>Where the code departs from the specification\<close>

text \<open>
  Claim C1 fails on the code. \<open>insert\<close> tests \<open>if self.find(key)\<close>, the truth
  value of what \<open>find\<close> returns, which for a map is the stored value. After
  \<open>insert(("a", ""))\<close> into \<open>HashMap("Chain", (31, 3))\<close> the key is present with a
  value that is false, so \<open>insert(("a", "x"))\<close> stores a second entry and increments
  the count, and \<open>find("a")\<close> returns the value of the first entry, not \<open>"x"\<close>.
  The round trip holds when nothing stored is false (\<open>insert_then_find\<close>).
\<close>

theorem find_after_insert_returns_old_value:
  "init_table True Chain [31, 3]
     = Inr \<lparr>is_hashmap = True, collision_type = Chain, z = 31, z2 = 0, c2 = 0, table_size = 3,
            total_elements = 0, table = Chained [[], [], []]\<rparr>
   \<and> insert_ht 3 \<lparr>is_hashmap = True, collision_type = Chain, z = 31, z2 = 0, c2 = 0,
                   table_size = 3, total_elements = 0, table = Chained [[], [], []]\<rparr>
        (KeyVal ''a'' (PStr []))
     = Some (Inr \<lparr>is_hashmap = True, collision_type = Chain, z = 31, z2 = 0, c2 = 0,
                  table_size = 3, total_elements = 1,
                  table = Chained [[KeyVal ''a'' (PStr [])], [], []]\<rparr>)
   \<and> insert_ht 3 \<lparr>is_hashmap = True, collision_type = Chain, z = 31, z2 = 0, c2 = 0,
                   table_size = 3, total_elements = 1,
                   table = Chained [[KeyVal ''a'' (PStr [])], [], []]\<rparr>
        (KeyVal ''a'' (PStr ''x''))
     = Some (Inr \<lparr>is_hashmap = True, collision_type = Chain, z = 31, z2 = 0, c2 = 0,
                  table_size = 3, total_elements = 2,
                  table = Chained [[KeyVal ''a'' (PStr []), KeyVal ''a'' (PStr ''x'')],
                                   [], []]\<rparr>)
   \<and> find_ht 3 \<lparr>is_hashmap = True, collision_type = Chain, z = 31, z2 = 0, c2 = 0,
                 table_size = 3, total_elements = 2,
                 table = Chained [[KeyVal ''a'' (PStr []), KeyVal ''a'' (PStr ''x'')],
                                  [], []]\<rparr> ''a''
     = Some (Inr (PStr []))"
  by code_simp

text \<open>
  Claim C2 fails on the code, by the same test. After \<open>insert(("a", 0))\<close> into
  \<open>HashMap("Linear", (31, 3))\<close>, \<open>insert(("a", 7))\<close> is not a no-op: the count
  goes from 1 to 2 and a second slot is filled, so two stored entries share the key.
\<close>

theorem insert_of_present_key_stores_duplicate:
  "init_table True Linear [31, 3]
     = Inr \<lparr>is_hashmap = True, collision_type = Linear, z = 31, z2 = 0, c2 = 0,
            table_size = 3, total_elements = 0, table = Probed [None, None, None]\<rparr>
   \<and> insert_ht 3 \<lparr>is_hashmap = True, collision_type = Linear, z = 31, z2 = 0, c2 = 0,
                   table_size = 3, total_elements = 0, table = Probed [None, None, None]\<rparr>
        (KeyVal ''a'' (PInt 0))
     = Some (Inr \<lparr>is_hashmap = True, collision_type = Linear, z = 31, z2 = 0, c2 = 0,
                  table_size = 3, total_elements = 1,
                  table = Probed [Some (KeyVal ''a'' (PInt 0)), None, None]\<rparr>)
   \<and> insert_ht 3 \<lparr>is_hashmap = True, collision_type = Linear, z = 31, z2 = 0, c2 = 0,
                   table_size = 3, total_elements = 1,
                   table = Probed [Some (KeyVal ''a'' (PInt 0)), None, None]\<rparr>
        (KeyVal ''a'' (PInt 7))
     = Some (Inr \<lparr>is_hashmap = True, collision_type = Linear, z = 31, z2 = 0, c2 = 0,
                  table_size = 3, total_elements = 2,
                  table = Probed [Some (KeyVal ''a'' (PInt 0)), Some (KeyVal ''a'' (PInt 7)),
                                  None]\<rparr>)"
  by code_simp

text \<open>
  No rebuild of a \<open>DynamicHashMap\<close> completes: when its \<open>insert\<close> returns, the list of
  sizes and the size of the table are what they were.
\<close>

lemma dynamic_map_never_rebuilt:
  assumes "is_hashmap (tbl st)" and "insert_dyn d n st x = Some (Inr st')"
  shows "prime_sizes st' = prime_sizes st \<and> table_size (tbl st') = table_size (tbl st)"
proof -
  have body: "prime_sizes st' = prime_sizes st \<and> table_size (tbl st') = table_size (tbl st)"
    if "dyn_insert_body ins n st x = Some (Inr st')" for ins
    using that
  proof (cases rule: dyn_insert_body_cases)
    case (direct t' load)
    then show ?thesis by (simp add: insert_ht_fields)
  next
    case (rehashed t' load)
    from rehashed(1) have "is_hashmap t' = is_hashmap (tbl st)" by (simp add: insert_ht_fields)
    with rehashed(4) assms(1) show ?thesis by simp
  qed
  from assms(2) show ?thesis by (cases d) (auto dest: body)
qed

text \<open>
  Claim C4 fails on the code. The rebuild of a \<open>DynamicHashMap\<close> reads
  \<open>self.params\<close>, which does not exist, and raises \<open>AttributeError\<close> for every
  strategy; the rebuild of a \<open>DynamicHashSet\<close> of the Double strategy hands two
  parameters to a constructor that indexes four and raises \<open>IndexError\<close>. In both the
  first insert into a table of two slots reaches the load 1/2 and the rebuild does not
  complete.
\<close>

theorem rebuild_raises:
  "insert_dyn 1 2
     \<lparr>tbl = \<lparr>is_hashmap = True, collision_type = Chain, z = 31, z2 = 0, c2 = 0,
              table_size = 2, total_elements = 0, table = Chained [[], []]\<rparr>,
      prime_sizes = [29]\<rparr> (KeyVal ''a'' (PStr ''v''))
     = Some (Inl AttributeError)
   \<and> insert_dyn 1 2
     \<lparr>tbl = \<lparr>is_hashmap = False, collision_type = Double, z = 31, z2 = 37, c2 = 17,
              table_size = 2, total_elements = 0, table = Probed [None, None]\<rparr>,
      prime_sizes = [29]\<rparr> (Key ''a'')
     = Some (Inl IndexError)"
  by code_simp

end
